theory Spec2Isabelle
  imports Complex_Main
begin

section \<open>Wait-for graph representations (wfgDataStructures.js)\<close>

text \<open>
  Node ids are the transaction ids of the application (\<open>T1\<close>, \<open>T2\<close>, ...): non-empty
  strings that are neither integer-like nor names found on \<open>Object.prototype\<close>.  For such
  keys a JavaScript object enumerates its own properties in insertion order, exactly as a
  \<open>Map\<close> does, and \<open>obj[k]\<close> is \<open>undefined\<close> unless \<open>k\<close> was stored.  Objects used as
  dictionaries and \<open>Map\<close>s are therefore association lists in insertion order; a \<open>Set\<close>
  is a duplicate-free list in insertion order.

  The timing instrumentation of \<open>BaseWFG\<close> (\<open>trackOperation\<close>, \<open>operationCount\<close>,
  \<open>totalTime\<close>) reads the wall clock and is left out.
\<close>

subsection \<open>Dictionaries and sets of JavaScript\<close>

definition dict_get :: "('k \<times> 'v) list \<Rightarrow> 'k \<Rightarrow> 'v option" where
  "dict_get d k = map_of d k"

fun dict_set :: "('k \<times> 'v) list \<Rightarrow> 'k \<Rightarrow> 'v \<Rightarrow> ('k \<times> 'v) list" where
  "dict_set [] k v = [(k, v)]"
| "dict_set ((k', v') # d) k v =
     (if k' = k then (k, v) # d else (k', v') # dict_set d k v)"

definition dict_keys :: "('k \<times> 'v) list \<Rightarrow> 'k list" where
  "dict_keys d = map fst d"

definition set_add :: "'a list \<Rightarrow> 'a \<Rightarrow> 'a list" where
  "set_add s x = (if x \<in> set s then s else s @ [x])"

definition set_delete :: "'a list \<Rightarrow> 'a \<Rightarrow> 'a list" where
  "set_delete s x = filter (\<lambda>y. y \<noteq> x) s"

subsection \<open>AdjacencyListWFG\<close>

text \<open>
  \<open>this.adjacencyList\<close> is a plain object.  For the plain ids of the application
  \<open>!this.adjacencyList[k]\<close> holds exactly when \<open>k\<close> was not stored, and
  \<open>Object.keys(this.adjacencyList)\<close> lists the keys in insertion order.  For a key made of
  digits only, or a name found on \<open>Object.prototype\<close>, the class behaves otherwise; such keys
  are outside this model.
\<close>

type_synonym 'a adjacency_list = "('a \<times> 'a list) list"

definition al_new :: "'a adjacency_list" where
  "al_new = []"

definition al_addEdge :: "'a adjacency_list \<Rightarrow> 'a \<Rightarrow> 'a \<Rightarrow> 'a adjacency_list" where
  "al_addEdge g from to =
     (let g1 = (case dict_get g from of None \<Rightarrow> dict_set g from [] | Some _ \<Rightarrow> g);
          g2 = (case dict_get g1 from of
                  None \<Rightarrow> g1
                | Some ns \<Rightarrow> if to \<in> set ns then g1 else dict_set g1 from (ns @ [to]))
      in (case dict_get g2 to of None \<Rightarrow> dict_set g2 to [] | Some _ \<Rightarrow> g2))"

definition al_removeEdge :: "'a adjacency_list \<Rightarrow> 'a \<Rightarrow> 'a \<Rightarrow> 'a adjacency_list" where
  "al_removeEdge g from to =
     (case dict_get g from of
        None \<Rightarrow> g
      | Some ns \<Rightarrow> dict_set g from (filter (\<lambda>node. node \<noteq> to) ns))"

definition al_hasEdge :: "'a adjacency_list \<Rightarrow> 'a \<Rightarrow> 'a \<Rightarrow> bool" where
  "al_hasEdge g from to =
     (case dict_get g from of None \<Rightarrow> False | Some ns \<Rightarrow> to \<in> set ns)"

definition al_getNeighbors :: "'a adjacency_list \<Rightarrow> 'a \<Rightarrow> 'a list" where
  "al_getNeighbors g node = (case dict_get g node of None \<Rightarrow> [] | Some ns \<Rightarrow> ns)"

definition al_getNodes :: "'a adjacency_list \<Rightarrow> 'a list" where
  "al_getNodes g = dict_keys g"

definition al_getAllEdges :: "'a adjacency_list \<Rightarrow> ('a \<times> 'a) list" where
  "al_getAllEdges g = concat (map (\<lambda>(from, ns). map (\<lambda>to. (from, to)) ns) g)"

definition al_clear :: "'a adjacency_list \<Rightarrow> 'a adjacency_list" where
  "al_clear g = []"

definition al_estimateMemoryUsage :: "'a adjacency_list \<Rightarrow> nat" where
  "al_estimateMemoryUsage g = length (dict_keys g) * 50 + length (al_getAllEdges g) * 20"

subsection \<open>AdjacencyMatrixWFG\<close>

text \<open>
  \<open>this.nodeIndexMap\<close> is a plain object too, read only by \<open>this.nodeIndexMap[k]\<close>: for
  plain ids a partial function from ids to indices.
\<close>

record 'a adjacency_matrix =
  mx_nodes :: "'a list"
  nodeIndexMap :: "'a \<rightharpoonup> nat"
  matrix :: "nat list list"

definition initializeMatrix :: "'a adjacency_matrix \<Rightarrow> 'a adjacency_matrix" where
  "initializeMatrix w =
     (let size = length (mx_nodes w)
      in w\<lparr>matrix := replicate size (replicate size 0),
           nodeIndexMap := fold (\<lambda>(node, index) im. im(node \<mapsto> index))
                                (zip (mx_nodes w) [0..<size]) (nodeIndexMap w)\<rparr>)"

definition mx_new :: "'a list \<Rightarrow> 'a adjacency_matrix" where
  "mx_new nodes = initializeMatrix \<lparr>mx_nodes = nodes, nodeIndexMap = Map.empty, matrix = []\<rparr>"

definition mx_addNode :: "'a adjacency_matrix \<Rightarrow> 'a \<Rightarrow> 'a adjacency_matrix" where
  "mx_addNode w nodeId =
     (case nodeIndexMap w nodeId of
        Some _ \<Rightarrow> w
      | None \<Rightarrow>
          (let newIndex = length (mx_nodes w);
               newSize = newIndex + 1
           in \<lparr>mx_nodes = mx_nodes w @ [nodeId],
               nodeIndexMap = (nodeIndexMap w)(nodeId \<mapsto> newIndex),
               matrix = map (\<lambda>row. row @ [0]) (matrix w) @ [replicate newSize 0]\<rparr>))"

text \<open>
  \<open>matrix[i][j] = v\<close>: by the class invariant (every index stored in \<open>nodeIndexMap\<close> is
  below the size of the square matrix) the write is always in range.
\<close>

definition mx_write :: "nat list list \<Rightarrow> nat \<Rightarrow> nat \<Rightarrow> nat \<Rightarrow> nat list list" where
  "mx_write mat i j v = mat[i := (mat ! i)[j := v]]"

definition mx_addEdge :: "'a adjacency_matrix \<Rightarrow> 'a \<Rightarrow> 'a \<Rightarrow> 'a adjacency_matrix" where
  "mx_addEdge w from to =
     (let w1 = (if nodeIndexMap w from = None then mx_addNode w from else w);
          w2 = (if nodeIndexMap w1 to = None then mx_addNode w1 to else w1)
      in (case (nodeIndexMap w2 from, nodeIndexMap w2 to) of
            (Some fromIndex, Some toIndex) \<Rightarrow>
               w2\<lparr>matrix := mx_write (matrix w2) fromIndex toIndex 1\<rparr>
          | _ \<Rightarrow> w2))"

definition mx_removeEdge :: "'a adjacency_matrix \<Rightarrow> 'a \<Rightarrow> 'a \<Rightarrow> 'a adjacency_matrix" where
  "mx_removeEdge w from to =
     (case (nodeIndexMap w from, nodeIndexMap w to) of
        (Some fromIndex, Some toIndex) \<Rightarrow>
           w\<lparr>matrix := mx_write (matrix w) fromIndex toIndex 0\<rparr>
      | _ \<Rightarrow> w)"

definition mx_hasEdge :: "'a adjacency_matrix \<Rightarrow> 'a \<Rightarrow> 'a \<Rightarrow> bool" where
  "mx_hasEdge w from to =
     (case (nodeIndexMap w from, nodeIndexMap w to) of
        (Some fromIndex, Some toIndex) \<Rightarrow> matrix w ! fromIndex ! toIndex = 1
      | _ \<Rightarrow> False)"

definition mx_getNeighbors :: "'a adjacency_matrix \<Rightarrow> 'a \<Rightarrow> 'a list" where
  "mx_getNeighbors w node =
     (case nodeIndexMap w node of
        None \<Rightarrow> []
      | Some fromIndex \<Rightarrow>
          map (\<lambda>i. mx_nodes w ! i)
              (filter (\<lambda>i. matrix w ! fromIndex ! i = 1)
                      [0..<length (matrix w ! fromIndex)]))"

definition mx_getNodes :: "'a adjacency_matrix \<Rightarrow> 'a list" where
  "mx_getNodes w = mx_nodes w"

definition mx_clear :: "'a adjacency_matrix \<Rightarrow> 'a adjacency_matrix" where
  "mx_clear w = initializeMatrix w"

definition mx_estimateMemoryUsage :: "'a adjacency_matrix \<Rightarrow> nat" where
  "mx_estimateMemoryUsage w =
     (let size = length (mx_nodes w) in size * size * 4 + size * 50)"

subsection \<open>HashMapSetsWFG\<close>

type_synonym 'a adjacency_map = "('a \<times> 'a list) list"

definition hm_new :: "'a adjacency_map" where
  "hm_new = []"

definition hm_addEdge :: "'a adjacency_map \<Rightarrow> 'a \<Rightarrow> 'a \<Rightarrow> 'a adjacency_map" where
  "hm_addEdge g from to =
     (let g1 = (if dict_get g from = None then dict_set g from [] else g);
          g2 = (case dict_get g1 from of
                  None \<Rightarrow> g1
                | Some s \<Rightarrow> dict_set g1 from (set_add s to))
      in if dict_get g2 to = None then dict_set g2 to [] else g2)"

definition hm_removeEdge :: "'a adjacency_map \<Rightarrow> 'a \<Rightarrow> 'a \<Rightarrow> 'a adjacency_map" where
  "hm_removeEdge g from to =
     (case dict_get g from of
        None \<Rightarrow> g
      | Some s \<Rightarrow> dict_set g from (set_delete s to))"

definition hm_hasEdge :: "'a adjacency_map \<Rightarrow> 'a \<Rightarrow> 'a \<Rightarrow> bool" where
  "hm_hasEdge g from to =
     (case dict_get g from of None \<Rightarrow> False | Some s \<Rightarrow> to \<in> set s)"

definition hm_getNeighbors :: "'a adjacency_map \<Rightarrow> 'a \<Rightarrow> 'a list" where
  "hm_getNeighbors g node = (case dict_get g node of None \<Rightarrow> [] | Some s \<Rightarrow> s)"

definition hm_getNodes :: "'a adjacency_map \<Rightarrow> 'a list" where
  "hm_getNodes g = dict_keys g"

definition hm_getAllEdges :: "'a adjacency_map \<Rightarrow> ('a \<times> 'a) list" where
  "hm_getAllEdges g = concat (map (\<lambda>(from, s). map (\<lambda>to. (from, to)) s) g)"

definition hm_clear :: "'a adjacency_map \<Rightarrow> 'a adjacency_map" where
  "hm_clear g = []"

definition hm_estimateMemoryUsage :: "'a adjacency_map \<Rightarrow> nat" where
  "hm_estimateMemoryUsage g = length (dict_keys g) * 60 + length (hm_getAllEdges g) * 25"

subsection \<open>The factory and the common interface\<close>

datatype 'a wfg =
    AdjacencyListWFG "'a adjacency_list"
  | AdjacencyMatrixWFG "'a adjacency_matrix"
  | HashMapSetsWFG "'a adjacency_map"

datatype wfg_type = adjacencyList | adjacencyMatrix | hashMapSets

fun createWFG :: "wfg_type \<Rightarrow> 'a list \<Rightarrow> 'a wfg" where
  "createWFG adjacencyList nodes = AdjacencyListWFG al_new"
| "createWFG adjacencyMatrix nodes = AdjacencyMatrixWFG (mx_new nodes)"
| "createWFG hashMapSets nodes = HashMapSetsWFG hm_new"

fun addEdge :: "'a wfg \<Rightarrow> 'a \<Rightarrow> 'a \<Rightarrow> 'a wfg" where
  "addEdge (AdjacencyListWFG g) from to = AdjacencyListWFG (al_addEdge g from to)"
| "addEdge (AdjacencyMatrixWFG w) from to = AdjacencyMatrixWFG (mx_addEdge w from to)"
| "addEdge (HashMapSetsWFG g) from to = HashMapSetsWFG (hm_addEdge g from to)"

fun removeEdge :: "'a wfg \<Rightarrow> 'a \<Rightarrow> 'a \<Rightarrow> 'a wfg" where
  "removeEdge (AdjacencyListWFG g) from to = AdjacencyListWFG (al_removeEdge g from to)"
| "removeEdge (AdjacencyMatrixWFG w) from to = AdjacencyMatrixWFG (mx_removeEdge w from to)"
| "removeEdge (HashMapSetsWFG g) from to = HashMapSetsWFG (hm_removeEdge g from to)"

fun hasEdge :: "'a wfg \<Rightarrow> 'a \<Rightarrow> 'a \<Rightarrow> bool" where
  "hasEdge (AdjacencyListWFG g) from to = al_hasEdge g from to"
| "hasEdge (AdjacencyMatrixWFG w) from to = mx_hasEdge w from to"
| "hasEdge (HashMapSetsWFG g) from to = hm_hasEdge g from to"

fun getNeighbors :: "'a wfg \<Rightarrow> 'a \<Rightarrow> 'a list" where
  "getNeighbors (AdjacencyListWFG g) node = al_getNeighbors g node"
| "getNeighbors (AdjacencyMatrixWFG w) node = mx_getNeighbors w node"
| "getNeighbors (HashMapSetsWFG g) node = hm_getNeighbors g node"

fun getNodes :: "'a wfg \<Rightarrow> 'a list" where
  "getNodes (AdjacencyListWFG g) = al_getNodes g"
| "getNodes (AdjacencyMatrixWFG w) = mx_getNodes w"
| "getNodes (HashMapSetsWFG g) = hm_getNodes g"

fun clear :: "'a wfg \<Rightarrow> 'a wfg" where
  "clear (AdjacencyListWFG g) = AdjacencyListWFG (al_clear g)"
| "clear (AdjacencyMatrixWFG w) = AdjacencyMatrixWFG (mx_clear w)"
| "clear (HashMapSetsWFG g) = HashMapSetsWFG (hm_clear g)"

fun estimateMemoryUsage :: "'a wfg \<Rightarrow> nat" where
  "estimateMemoryUsage (AdjacencyListWFG g) = al_estimateMemoryUsage g"
| "estimateMemoryUsage (AdjacencyMatrixWFG w) = mx_estimateMemoryUsage w"
| "estimateMemoryUsage (HashMapSetsWFG g) = hm_estimateMemoryUsage g"

section \<open>The transaction manager (transactionManager.js)\<close>

text \<open>
  Transactions and resources are the objects of the two arrays of the manager; a method
  that looks one up with \<open>find\<close> and then assigns to its fields changes the first array
  element with that id.  \<open>avgTime\<close> is computed from \<open>performance.now()\<close> and is left
  out of the metrics.
\<close>

datatype tx_status = Active | Waiting | Blocked | Aborted

fun status_name :: "tx_status \<Rightarrow> string" where
  "status_name Active = ''active''"
| "status_name Waiting = ''waiting''"
| "status_name Blocked = ''blocked''"
| "status_name Aborted = ''aborted''"

record transaction =
  tx_id :: string
  status :: tx_status
  heldLocks :: "string list"
  waitingFor :: "string option"

record resource =
  res_id :: string
  lockedBy :: "string option"
  waitQueue :: "string list"

record metrics =
  operations :: nat
  conflicts :: nat
  memoryUsage :: nat
  deadlocksDetected :: nat

record manager =
  transactions :: "transaction list"
  resources :: "resource list"
  wfg :: "string wfg"
  mgr_metrics :: metrics

text \<open>The result objects; \<open>abortTransaction\<close> returns no \<open>updated\<close> field.\<close>

record op_result =
  success :: bool
  message :: string
  updated :: "bool option"

fun update_first :: "('a \<Rightarrow> bool) \<Rightarrow> ('a \<Rightarrow> 'a) \<Rightarrow> 'a list \<Rightarrow> 'a list" where
  "update_first P f [] = []"
| "update_first P f (x # xs) = (if P x then f x # xs else x # update_first P f xs)"

definition find_tx :: "manager \<Rightarrow> string \<Rightarrow> transaction option" where
  "find_tx m txId = find (\<lambda>t. tx_id t = txId) (transactions m)"

definition find_res :: "manager \<Rightarrow> string \<Rightarrow> resource option" where
  "find_res m resId = find (\<lambda>r. res_id r = resId) (resources m)"

definition modify_tx :: "string \<Rightarrow> (transaction \<Rightarrow> transaction) \<Rightarrow> manager \<Rightarrow> manager" where
  "modify_tx txId f m = m\<lparr>transactions := update_first (\<lambda>t. tx_id t = txId) f (transactions m)\<rparr>"

definition modify_res :: "string \<Rightarrow> (resource \<Rightarrow> resource) \<Rightarrow> manager \<Rightarrow> manager" where
  "modify_res resId f m = m\<lparr>resources := update_first (\<lambda>r. res_id r = resId) f (resources m)\<rparr>"

definition new_manager :: "wfg_type \<Rightarrow> transaction list \<Rightarrow> resource list \<Rightarrow> manager" where
  "new_manager dataStructureType txs ress =
     \<lparr>transactions = txs, resources = ress,
      wfg = createWFG dataStructureType (map tx_id txs),
      mgr_metrics = \<lparr>operations = 0, conflicts = 0, memoryUsage = 0, deadlocksDetected = 0\<rparr>\<rparr>"

definition removeWaitEdges :: "manager \<Rightarrow> string \<Rightarrow> manager" where
  "removeWaitEdges m txId =
     m\<lparr>wfg := fold (\<lambda>neighbor w. removeEdge w txId neighbor) (getNeighbors (wfg m) txId) (wfg m)\<rparr>"

definition removeWaitEdgesForResource :: "manager \<Rightarrow> string \<Rightarrow> manager" where
  "removeWaitEdgesForResource m resId = m"

definition updateMetrics :: "manager \<Rightarrow> manager" where
  "updateMetrics m =
     m\<lparr>mgr_metrics := (mgr_metrics m)\<lparr>operations := operations (mgr_metrics m) + 1,
                                        memoryUsage := estimateMemoryUsage (wfg m)\<rparr>\<rparr>"

definition acquireLock :: "manager \<Rightarrow> string \<Rightarrow> string \<Rightarrow> op_result \<times> manager" where
  "acquireLock m txId resId =
     (case (find_tx m txId, find_res m resId) of
        (Some tx, Some res) \<Rightarrow>
          if status tx \<noteq> Active \<and> status tx \<noteq> Waiting then
            (\<lparr>success = False,
              message = ''Transaction '' @ txId @ '' is '' @ status_name (status tx),
              updated = Some False\<rparr>, m)
          else if resId \<in> set (heldLocks tx) then
            (\<lparr>success = True,
              message = ''Transaction '' @ txId @ '' already holds '' @ resId,
              updated = Some False\<rparr>, m)
          else (case lockedBy res of
             None \<Rightarrow>
               (let m1 = modify_res resId (\<lambda>r. r\<lparr>lockedBy := Some txId\<rparr>) m;
                    m2 = modify_tx txId (\<lambda>t. t\<lparr>heldLocks := heldLocks t @ [resId],
                                               status := Active, waitingFor := None\<rparr>) m1;
                    m3 = removeWaitEdges m2 txId
                in (\<lparr>success = True,
                     message = ''Lock granted on '' @ resId @ '' to '' @ txId,
                     updated = Some True\<rparr>, updateMetrics m3))
           | Some holderTxId \<Rightarrow>
               (let m1 = modify_res resId
                           (\<lambda>r. if txId \<in> set (waitQueue r) then r
                                else r\<lparr>waitQueue := waitQueue r @ [txId]\<rparr>) m;
                    m2 = modify_tx txId (\<lambda>t. t\<lparr>waitingFor := Some resId, status := Waiting\<rparr>) m1;
                    m3 = m2\<lparr>wfg := addEdge (wfg m2) txId holderTxId\<rparr>;
                    m4 = m3\<lparr>mgr_metrics := (mgr_metrics m3)\<lparr>conflicts := conflicts (mgr_metrics m3) + 1\<rparr>\<rparr>
                in (\<lparr>success = False,
                     message = ''Waiting for '' @ resId @ '' held by '' @ holderTxId,
                     updated = Some True\<rparr>, updateMetrics m4)))
      | _ \<Rightarrow>
          (\<lparr>success = False, message = ''Invalid transaction or resource'',
            updated = Some False\<rparr>, m))"

text \<open>
  The grant to the next waiter inside \<open>releaseLock\<close>: \<open>waitQueue.shift()\<close> has already
  removed \<open>nextTxId\<close>; nothing more happens when no transaction has that id.
\<close>

definition promote :: "manager \<Rightarrow> string \<Rightarrow> string \<Rightarrow> manager" where
  "promote m resId nextTxId =
     (case find_tx m nextTxId of
        None \<Rightarrow> m
      | Some nextTx \<Rightarrow>
          (let m1 = modify_res resId (\<lambda>r. r\<lparr>lockedBy := Some nextTxId\<rparr>) m;
               m2 = modify_tx nextTxId (\<lambda>t. t\<lparr>heldLocks := heldLocks t @ [resId],
                                              status := Active, waitingFor := None\<rparr>) m1;
               m3 = removeWaitEdges m2 nextTxId
           in (case find_res m3 resId of
                 None \<Rightarrow> m3
               | Some r \<Rightarrow>
                   m3\<lparr>wfg := fold (\<lambda>waiterId w. addEdge w waiterId nextTxId)
                                   (waitQueue r) (wfg m3)\<rparr>)))"

definition releaseLock :: "manager \<Rightarrow> string \<Rightarrow> string \<Rightarrow> op_result \<times> manager" where
  "releaseLock m txId resId =
     (case (find_tx m txId, find_res m resId) of
        (Some tx, Some res) \<Rightarrow>
          if lockedBy res \<noteq> Some txId then
            (\<lparr>success = False,
              message = ''Transaction '' @ txId @ '' does not hold '' @ resId,
              updated = Some False\<rparr>, m)
          else
            (let m1 = modify_res resId (\<lambda>r. r\<lparr>lockedBy := None\<rparr>) m;
                 m2 = modify_tx txId
                        (\<lambda>t. t\<lparr>heldLocks := filter (\<lambda>i. i \<noteq> resId) (heldLocks t)\<rparr>) m1;
                 m3 = removeWaitEdgesForResource m2 resId;
                 m4 = (case waitQueue res of
                         [] \<Rightarrow> m3
                       | nextTxId # rest \<Rightarrow>
                           promote (modify_res resId (\<lambda>r. r\<lparr>waitQueue := rest\<rparr>) m3)
                                   resId nextTxId)
             in (\<lparr>success = True,
                  message = ''Lock released on '' @ resId @ '' by '' @ txId,
                  updated = Some True\<rparr>, updateMetrics m4))
      | _ \<Rightarrow>
          (\<lparr>success = False, message = ''Invalid transaction or resource'',
            updated = Some False\<rparr>, m))"

text \<open>
  \<open>abortTransaction\<close> iterates over the array that \<open>tx.heldLocks\<close> refers to when the loop
  starts; \<open>releaseLock\<close> replaces the field by a new array and never changes that one.
\<close>

definition abortTransaction :: "manager \<Rightarrow> string \<Rightarrow> op_result \<times> manager" where
  "abortTransaction m txId =
     (case find_tx m txId of
        None \<Rightarrow> (\<lparr>success = False, message = ''Invalid transaction'', updated = None\<rparr>, m)
      | Some tx \<Rightarrow>
          (let m1 = modify_tx txId (\<lambda>t. t\<lparr>status := Aborted\<rparr>) m;
               m2 = fold (\<lambda>resId s. snd (releaseLock s txId resId)) (heldLocks tx) m1;
               m3 = modify_tx txId (\<lambda>t. t\<lparr>heldLocks := []\<rparr>) m2;
               m4 = m3\<lparr>resources :=
                         map (\<lambda>r. r\<lparr>waitQueue := filter (\<lambda>i. i \<noteq> txId) (waitQueue r)\<rparr>)
                             (resources m3)\<rparr>;
               m5 = modify_tx txId (\<lambda>t. t\<lparr>waitingFor := None\<rparr>) m4;
               m6 = m5\<lparr>wfg := fold (\<lambda>node w. removeEdge w node txId)
                                    (getNodes (wfg m5)) (wfg m5)\<rparr>;
               m7 = removeWaitEdges m6 txId
           in (\<lparr>success = True, message = ''Transaction '' @ txId @ '' aborted'',
                updated = None\<rparr>, m7)))"

section \<open>The graph seen by the algorithms\<close>

text \<open>
  The detection, victim-selection and colouring algorithms read a wait-for graph only
  through \<open>getNodes()\<close> and \<open>getNeighbors(node)\<close>.  What they see is a list of nodes,
  each with its list of successors, and \<open>getNeighbors\<close> is empty for every other id: an
  association list.  \<open>graph_of\<close> gives the view of a graph object of
  wfgDataStructures.js.
\<close>

type_synonym 'a graph = "('a \<times> 'a list) list"

definition vNodes :: "'a graph \<Rightarrow> 'a list" where
  "vNodes g = map fst g"

definition vNeighbors :: "'a graph \<Rightarrow> 'a \<Rightarrow> 'a list" where
  "vNeighbors g node = (case map_of g node of None \<Rightarrow> [] | Some ns \<Rightarrow> ns)"

definition universe :: "'a graph \<Rightarrow> 'a set" where
  "universe g = set (map fst g) \<union> (\<Union>ns \<in> set (map snd g). set ns)"

lemma finite_universe [simp]: "finite (universe g)"
  by (simp add: universe_def)

lemma vNeighbors_universe: "set (vNeighbors g node) \<subseteq> universe g"
proof (cases "map_of g node")
  case None
  then show ?thesis by (simp add: vNeighbors_def)
next
  case (Some ns)
  then have "(node, ns) \<in> set g" by (rule map_of_SomeD)
  then have "ns \<in> set (map snd g)" by force
  then have "set ns \<subseteq> universe g" unfolding universe_def by blast
  with Some show ?thesis by (simp add: vNeighbors_def)
qed

definition graph_of :: "'a wfg \<Rightarrow> 'a graph" where
  "graph_of w = map (\<lambda>node. (node, getNeighbors w node)) (getNodes w)"

section \<open>Algorithms of the analyzer (App.jsx)\<close>

subsection \<open>selectVictimFromCycle\<close>





subsection \<open>bfsSum, the distance sum of bfsVictimSelection\<close>






subsection \<open>dfsDetectCycle\<close>

text \<open>
  The reconstruction of the cycle follows, from the current node, the parent recorded in
  the first \<open>visit\<close> event of each node (\<open>path.slice(-2, -1)[0] || null\<close>), until it meets
  the target of the back edge or runs out of parents.  As a loop over data it need not
  end, so it is a partial function; not returning is \<open>None\<close>, which the search passes on.
\<close>

datatype 'a trace_event =
    Visit 'a "'a list"
  | Edge 'a 'a
  | Cycle "'a list"
  | Backtrack 'a

record 'a dfs_state =
  visited :: "'a set"
  recStack :: "'a set"
  trace :: "'a trace_event list"
  cycleFound :: "'a list option"

fun is_visit_of :: "'a \<Rightarrow> 'a trace_event \<Rightarrow> bool" where
  "is_visit_of cur (Visit node path) = (node = cur)"
| "is_visit_of cur _ = False"

fun event_path :: "'a trace_event \<Rightarrow> 'a list" where
  "event_path (Visit node path) = path"
| "event_path _ = []"

definition parent_of :: "'a trace_event list \<Rightarrow> 'a \<Rightarrow> 'a option" where
  "parent_of tr cur =
     (let path = (case find (is_visit_of cur) tr of None \<Rightarrow> [] | Some t \<Rightarrow> event_path t)
      in if length path \<ge> 2 then Some (path ! (length path - 2)) else None)"

partial_function (option) walk_back :: "'a trace_event list \<Rightarrow> 'a \<Rightarrow> 'a option \<Rightarrow> 'a list \<Rightarrow> 'a list option" where
  "walk_back tr neighbor cur cycle =
     (case cur of
        None \<Rightarrow> Some cycle
      | Some c \<Rightarrow>
          if c = neighbor then Some cycle
          else walk_back tr neighbor (parent_of tr c) (cycle @ [c]))"

declare walk_back.simps [code]

definition enter :: "'a \<Rightarrow> 'a list \<Rightarrow> 'a dfs_state \<Rightarrow> 'a dfs_state" where
  "enter node path st =
     st\<lparr>visited := insert node (visited st), recStack := insert node (recStack st),
        trace := trace st @ [Visit node (path @ [node])]\<rparr>"

definition report_cycle :: "'a list \<Rightarrow> 'a dfs_state \<Rightarrow> 'a list option \<times> 'a dfs_state" where
  "report_cycle cycle st = (Some cycle, st\<lparr>trace := trace st @ [Cycle cycle], cycleFound := Some cycle\<rparr>)"

function visit_loop :: "'a graph \<Rightarrow> 'a \<Rightarrow> 'a list \<Rightarrow> 'a list \<Rightarrow> 'a dfs_state
                         \<Rightarrow> ('a list option \<times> 'a dfs_state) option" where
  "visit_loop g node path [] st =
     Some (None, st\<lparr>recStack := recStack st - {node}, trace := trace st @ [Backtrack node]\<rparr>)"
| "visit_loop g node path (neighbor # rest) st =
     (let st1 = st\<lparr>trace := trace st @ [Edge node neighbor]\<rparr>
      in if neighbor \<notin> visited st1 then
           (case visit_loop g neighbor (path @ [node]) (vNeighbors g neighbor)
                   (enter neighbor (path @ [node]) st1) of
              None \<Rightarrow> None
            | Some (Some result, st2) \<Rightarrow> Some (Some result, st2)
            | Some (None, st2) \<Rightarrow> visit_loop g node path rest st2)
         else if neighbor \<in> recStack st1 then
           (case walk_back (trace st1) neighbor (Some node) [neighbor] of
              None \<Rightarrow> None
            | Some cycle \<Rightarrow>
                if length cycle < 2 then Some (report_cycle (path @ [node, neighbor]) st1)
                else Some (report_cycle (rev (cycle @ [neighbor])) st1))
         else visit_loop g node path rest st1)"
  by pat_completeness auto

lemma visit_loop_visited_mono:
  "visit_loop_dom (g, node, path, nbs, st) \<Longrightarrow> visit_loop g node path nbs st = Some (r, st')
   \<Longrightarrow> visited st \<subseteq> visited st'"
proof (induction g node path nbs st arbitrary: r st' rule: visit_loop.pinduct)
  case (1 g node path st)
  then show ?case by (auto simp: visit_loop.psimps)
next
  case (2 g node path neighbor rest st)
  let ?st1 = "st\<lparr>trace := trace st @ [Edge node neighbor]\<rparr>"
  show ?case
  proof (cases "neighbor \<notin> visited st")
    case True
    show ?thesis
    proof (cases "visit_loop g neighbor (path @ [node]) (vNeighbors g neighbor) (enter neighbor (path @ [node]) ?st1)")
      case None
      with True "2.prems" "2.hyps" show ?thesis by (simp add: visit_loop.psimps)
    next
      case (Some p)
      obtain r2 st2 where p: "p = (r2, st2)" by (cases p)
      from "2.IH"(1) [OF refl _ Some [unfolded p]] True
      have m1: "visited (enter neighbor (path @ [node]) ?st1) \<subseteq> visited st2" by simp
      then have m2: "visited st \<subseteq> visited st2" by (auto simp: enter_def)
      show ?thesis
      proof (cases r2)
        case None
        with True Some p "2.prems" "2.hyps"
        have "visit_loop g node path rest st2 = Some (r, st')"
          by (simp add: visit_loop.psimps)
        from "2.IH"(2) [OF refl _ Some [unfolded p] _ _ this] True None
        have "visited st2 \<subseteq> visited st'" by simp
        with m2 show ?thesis by blast
      next
        case (Some c)
        with True \<open>visit_loop g neighbor (path @ [node]) (vNeighbors g neighbor) (enter neighbor (path @ [node]) ?st1) = Some p\<close>
          p "2.prems" "2.hyps"
        have "st' = st2" by (simp add: visit_loop.psimps)
        with m2 show ?thesis by simp
      qed
    qed
  next
    case False
    note vis = this
    show ?thesis
    proof (cases "neighbor \<in> recStack st")
      case True
      with vis "2.prems" "2.hyps" show ?thesis
        by (auto simp: visit_loop.psimps report_cycle_def Let_def split: option.splits if_splits)
    next
      case False
      with vis "2.prems" "2.hyps"
      have "visit_loop g node path rest ?st1 = Some (r, st')"
        by (simp add: visit_loop.psimps)
      from "2.IH"(3) [OF refl _ _ this] vis False show ?thesis by simp
    qed
  qed
qed

termination visit_loop
proof (relation "measures [\<lambda>(g, node, path, nbs, st). card ((universe g \<union> set nbs) - visited st),
                           \<lambda>(g, node, path, nbs, st). length nbs]")
  show "wf (measures [\<lambda>(g, node, path, nbs, st). card ((universe g \<union> set nbs) - visited st),
                           \<lambda>(g :: 'a graph, node, path, nbs, st:: 'a dfs_state). length nbs])"
    by simp
next
  fix g :: "'a graph" and node path neighbor rest and st st1 :: "'a dfs_state"
  assume st1: "st1 = st\<lparr>trace := trace st @ [Edge node neighbor]\<rparr>" and nv: "neighbor \<notin> visited st1"
  have "(universe g \<union> set (vNeighbors g neighbor)) - visited (enter neighbor (path @ [node]) st1)
        \<subset> (universe g \<union> set (neighbor # rest)) - visited st"
    using nv st1 vNeighbors_universe [of g neighbor] by (auto simp: enter_def)
  then have "card ((universe g \<union> set (vNeighbors g neighbor)) - visited (enter neighbor (path @ [node]) st1))
        < card ((universe g \<union> set (neighbor # rest)) - visited st)"
    by (intro psubset_card_mono) auto
  then show "((g, neighbor, path @ [node], vNeighbors g neighbor, enter neighbor (path @ [node]) st1),
         (g, node, path, neighbor # rest, st))
        \<in> measures [\<lambda>(g, node, path, nbs, st). card ((universe g \<union> set nbs) - visited st),
                           \<lambda>(g, node, path, nbs, st). length nbs]"
    by simp
next
  fix g :: "'a graph" and node path neighbor rest and st st1 st2 :: "'a dfs_state" and x2 x1
  assume st1: "st1 = st\<lparr>trace := trace st @ [Edge node neighbor]\<rparr>" and nv: "neighbor \<notin> visited st1"
    and call: "visit_loop g neighbor (path @ [node]) (vNeighbors g neighbor) (enter neighbor (path @ [node]) st1) = Some x2"
    and x2: "(x1, st2) = x2" 
    and dom: "visit_loop_dom (g, neighbor, path @ [node], vNeighbors g neighbor, enter neighbor (path @ [node]) st1)"
  from visit_loop_visited_mono [OF dom call [folded x2]]
  have "visited st \<subseteq> visited st2" using st1 by (auto simp: enter_def)
  then have "(universe g \<union> set rest) - visited st2 \<subseteq> (universe g \<union> set (neighbor # rest)) - visited st"
    by auto
  then have "card ((universe g \<union> set rest) - visited st2) \<le> card ((universe g \<union> set (neighbor # rest)) - visited st)"
    by (intro card_mono) auto
  then show "((g, node, path, rest, st2), (g, node, path, neighbor # rest, st))
        \<in> measures [\<lambda>(g, node, path, nbs, st). card ((universe g \<union> set nbs) - visited st),
                           \<lambda>(g, node, path, nbs, st). length nbs]"
    by auto
next
  fix g :: "'a graph" and node path neighbor rest and st st1 :: "'a dfs_state"
  assume st1: "st1 = st\<lparr>trace := trace st @ [Edge node neighbor]\<rparr>" 
  have "(universe g \<union> set rest) - visited st1 \<subseteq> (universe g \<union> set (neighbor # rest)) - visited st"
    using st1 by auto
  then have "card ((universe g \<union> set rest) - visited st1) \<le> card ((universe g \<union> set (neighbor # rest)) - visited st)"
    by (intro card_mono) auto
  then show "((g, node, path, rest, st1), (g, node, path, neighbor # rest, st))
        \<in> measures [\<lambda>(g, node, path, nbs, st). card ((universe g \<union> set nbs) - visited st),
                           \<lambda>(g, node, path, nbs, st). length nbs]"
    by auto
qed

definition dfsVisit :: "'a graph \<Rightarrow> 'a \<Rightarrow> 'a list \<Rightarrow> 'a dfs_state
                         \<Rightarrow> ('a list option \<times> 'a dfs_state) option" where
  "dfsVisit g node path st = visit_loop g node path (vNeighbors g node) (enter node path st)"

fun dfs_outer :: "'a graph \<Rightarrow> 'a list \<Rightarrow> 'a dfs_state \<Rightarrow> 'a dfs_state option" where
  "dfs_outer g [] st = Some st"
| "dfs_outer g (node # rest) st =
     (if node \<notin> visited st then
        (case dfsVisit g node [] st of
           None \<Rightarrow> None
         | Some (Some result, st') \<Rightarrow> Some st'
         | Some (None, st') \<Rightarrow> dfs_outer g rest st')
      else dfs_outer g rest st)"

record 'a dfs_result =
  dr_cycle :: "'a list option"
  dr_trace :: "'a trace_event list"
  dr_visited :: nat

definition dfs_init :: "'a dfs_state" where
  "dfs_init = \<lparr>visited = {}, recStack = {}, trace = [], cycleFound = None\<rparr>"

definition dfsDetectCycle :: "'a graph \<Rightarrow> 'a dfs_result option" where
  "dfsDetectCycle g =
     (case dfs_outer g (vNodes g) dfs_init of
        None \<Rightarrow> None
      | Some st \<Rightarrow> Some \<lparr>dr_cycle = cycleFound st, dr_trace = trace st,
                          dr_visited = card (visited st)\<rparr>)"

subsection \<open>bfsVictimSelection\<close>





section \<open>Deadlock detection (deadlockDetection.js)\<close>

subsection \<open>detectDeadlock\<close>

text \<open>
  \<open>pathMap\<close> is written and never read, and \<open>detectionTime\<close> and \<open>timestamp\<close> come from
  the clock; they are left out.  \<open>dd_loop g node path\<close> is the \<open>for\<close> loop of \<open>dfs\<close> over
  the neighbours of \<open>node\<close>, with \<open>path\<close> the array after \<open>path.push(node)\<close>.
  \<open>path.indexOf(neighbor)\<close> is \<open>-1\<close> when the neighbour is not on the path, and
  \<open>path.slice(-1)\<close> is then the last element alone.
\<close>

record 'a detect_state =
  dd_visited :: "'a set"
  dd_recStack :: "'a set"
  dd_cycles :: "'a list list"

definition isCycleDuplicate :: "'a list list \<Rightarrow> 'a list \<Rightarrow> bool" where
  "isCycleDuplicate existingCycles newCycle =
     list_ex (\<lambda>cycle. card (set (butlast newCycle)) = card (set (butlast cycle))
                      \<and> set (butlast newCycle) \<subseteq> set (butlast cycle))
             existingCycles"

definition slice_from :: "'a list \<Rightarrow> 'a \<Rightarrow> 'a list" where
  "slice_from path neighbor =
     (if neighbor \<in> set path then dropWhile (\<lambda>x. x \<noteq> neighbor) path
      else drop (length path - 1) path)"

definition dd_mark :: "'a \<Rightarrow> 'a detect_state \<Rightarrow> 'a detect_state" where
  "dd_mark node st =
     st\<lparr>dd_visited := insert node (dd_visited st), dd_recStack := insert node (dd_recStack st)\<rparr>"

definition dd_record :: "'a list \<Rightarrow> 'a \<Rightarrow> 'a detect_state \<Rightarrow> 'a detect_state" where
  "dd_record path neighbor st =
     (let cycle = slice_from path neighbor @ [neighbor]
      in if isCycleDuplicate (dd_cycles st) cycle then st
         else st\<lparr>dd_cycles := dd_cycles st @ [cycle]\<rparr>)"

function dd_loop :: "'a graph \<Rightarrow> 'a \<Rightarrow> 'a list \<Rightarrow> 'a list \<Rightarrow> 'a detect_state
                      \<Rightarrow> bool \<times> 'a detect_state" where
  "dd_loop g node path [] st = (False, st\<lparr>dd_recStack := dd_recStack st - {node}\<rparr>)"
| "dd_loop g node path (neighbor # rest) st =
     (if neighbor \<notin> dd_visited st then
        (case dd_loop g neighbor (path @ [neighbor]) (vNeighbors g neighbor) (dd_mark neighbor st) of
           (True, st2) \<Rightarrow> (True, st2)
         | (False, st2) \<Rightarrow> dd_loop g node path rest st2)
      else if neighbor \<in> dd_recStack st then (True, dd_record path neighbor st)
      else dd_loop g node path rest st)"
  by pat_completeness auto

lemma dd_loop_visited_mono:
  "dd_loop_dom (g, node, path, nbs, st) \<Longrightarrow> dd_loop g node path nbs st = (r, st')
   \<Longrightarrow> dd_visited st \<subseteq> dd_visited st'"
proof (induction g node path nbs st arbitrary: r st' rule: dd_loop.pinduct)
  case (1 g node path st)
  then show ?case by (auto simp: dd_loop.psimps)
next
  case (2 g node path neighbor rest st)
  show ?case
  proof (cases "neighbor \<notin> dd_visited st")
    case True
    obtain r2 st2 where call: "dd_loop g neighbor (path @ [neighbor]) (vNeighbors g neighbor) (dd_mark neighbor st) = (r2, st2)"
      by (cases "dd_loop g neighbor (path @ [neighbor]) (vNeighbors g neighbor) (dd_mark neighbor st)")
    from "2.IH"(1) [OF True call] have "dd_visited (dd_mark neighbor st) \<subseteq> dd_visited st2" .
    then have m2: "dd_visited st \<subseteq> dd_visited st2" by (auto simp: dd_mark_def)
    show ?thesis
    proof (cases r2)
      case True
      with \<open>neighbor \<notin> dd_visited st\<close> call "2.prems" "2.hyps" have "st' = st2"
        by (simp add: dd_loop.psimps)
      with m2 show ?thesis by simp
    next
      case False
      with True call "2.prems" "2.hyps" have c: "dd_loop g node path rest st2 = (r, st')"
        by (simp add: dd_loop.psimps)
      from "2.IH"(2) [OF True call [symmetric] _ c] False have "dd_visited st2 \<subseteq> dd_visited st'"
        by simp
      with m2 show ?thesis by blast
    qed
  next
    case False
    note vis = this
    show ?thesis
    proof (cases "neighbor \<in> dd_recStack st")
      case True
      with vis "2.prems" "2.hyps" show ?thesis
        by (auto simp: dd_loop.psimps dd_record_def Let_def split: if_splits)
    next
      case False
      with vis "2.prems" "2.hyps" have "dd_loop g node path rest st = (r, st')"
        by (simp add: dd_loop.psimps)
      from "2.IH"(3) [OF vis False this] show ?thesis .
    qed
  qed
qed

termination dd_loop
proof (relation "measures [\<lambda>(g, node, path, nbs, st). card ((universe g \<union> set nbs) - dd_visited st),
                           \<lambda>(g, node, path, nbs, st). length nbs]")
  show "wf (measures [\<lambda>(g, node, path, nbs, st). card ((universe g \<union> set nbs) - dd_visited st),
                      \<lambda>(g :: 'a graph, node, path, nbs, st :: 'a detect_state). length nbs])"
    by simp
next
  fix g :: "'a graph" and node path neighbor rest and st :: "'a detect_state"
  assume nv: "neighbor \<notin> dd_visited st"
  have "(universe g \<union> set (vNeighbors g neighbor)) - dd_visited (dd_mark neighbor st)
        \<subset> (universe g \<union> set (neighbor # rest)) - dd_visited st"
    using nv vNeighbors_universe [of g neighbor] by (auto simp: dd_mark_def)
  then have "card ((universe g \<union> set (vNeighbors g neighbor)) - dd_visited (dd_mark neighbor st))
        < card ((universe g \<union> set (neighbor # rest)) - dd_visited st)"
    by (intro psubset_card_mono) auto
  then show "((g, neighbor, path @ [neighbor], vNeighbors g neighbor, dd_mark neighbor st),
         (g, node, path, neighbor # rest, st))
        \<in> measures [\<lambda>(g, node, path, nbs, st). card ((universe g \<union> set nbs) - dd_visited st),
                     \<lambda>(g, node, path, nbs, st). length nbs]"
    by simp
next
  fix g :: "'a graph" and node path neighbor rest and st st2 :: "'a detect_state" and r
  assume nv: "neighbor \<notin> dd_visited st"
    and call: "(r, st2) = dd_loop g neighbor (path @ [neighbor]) (vNeighbors g neighbor) (dd_mark neighbor st)"
    and dom: "dd_loop_dom (g, neighbor, path @ [neighbor], vNeighbors g neighbor, dd_mark neighbor st)"
  from call have "dd_loop g neighbor (path @ [neighbor]) (vNeighbors g neighbor) (dd_mark neighbor st) = (r, st2)"
    by simp
  from dd_loop_visited_mono [OF dom this]
  have "dd_visited st \<subseteq> dd_visited st2" by (auto simp: dd_mark_def)
  then have "(universe g \<union> set rest) - dd_visited st2 \<subseteq> (universe g \<union> set (neighbor # rest)) - dd_visited st"
    by auto
  then have "card ((universe g \<union> set rest) - dd_visited st2) \<le> card ((universe g \<union> set (neighbor # rest)) - dd_visited st)"
    by (intro card_mono) auto
  then show "((g, node, path, rest, st2), (g, node, path, neighbor # rest, st))
        \<in> measures [\<lambda>(g, node, path, nbs, st). card ((universe g \<union> set nbs) - dd_visited st),
                     \<lambda>(g, node, path, nbs, st). length nbs]"
    by auto
next
  fix g :: "'a graph" and node path neighbor rest and st :: "'a detect_state"
  have "(universe g \<union> set rest) - dd_visited st \<subseteq> (universe g \<union> set (neighbor # rest)) - dd_visited st"
    by auto
  then have "card ((universe g \<union> set rest) - dd_visited st) \<le> card ((universe g \<union> set (neighbor # rest)) - dd_visited st)"
    by (intro card_mono) auto
  then show "((g, node, path, rest, st), (g, node, path, neighbor # rest, st))
        \<in> measures [\<lambda>(g, node, path, nbs, st). card ((universe g \<union> set nbs) - dd_visited st),
                     \<lambda>(g, node, path, nbs, st). length nbs]"
    by auto
qed

definition dd_dfs :: "'a graph \<Rightarrow> 'a \<Rightarrow> 'a list \<Rightarrow> 'a detect_state \<Rightarrow> bool \<times> 'a detect_state" where
  "dd_dfs g node path st = dd_loop g node (path @ [node]) (vNeighbors g node) (dd_mark node st)"

fun dd_outer :: "'a graph \<Rightarrow> 'a list \<Rightarrow> 'a detect_state \<Rightarrow> 'a detect_state" where
  "dd_outer g [] st = st"
| "dd_outer g (node # rest) st =
     (if node \<notin> dd_visited st then dd_outer g rest (snd (dd_dfs g node [] st))
      else dd_outer g rest st)"

record 'a detect_result =
  hasCycle :: bool
  cycles :: "'a list list"
  visitedNodes :: nat

definition detectDeadlock :: "'a graph \<Rightarrow> 'a detect_result" where
  "detectDeadlock g =
     (let st = dd_outer g (vNodes g) \<lparr>dd_visited = {}, dd_recStack = {}, dd_cycles = []\<rparr>
      in \<lparr>hasCycle = (dd_cycles st \<noteq> []), cycles = dd_cycles st,
          visitedNodes = card (dd_visited st)\<rparr>)"

subsection \<open>detectDeadlockTarjan\<close>

text \<open>
  The state shared by the calls of \<open>strongConnect\<close>: the Maps \<open>indices\<close> and \<open>lowLinks\<close>, the
  Set \<open>onStack\<close>, the arrays \<open>stack\<close> and \<open>sccs\<close> and the counter \<open>index\<close>.  The array
  \<open>stack\<close> is only pushed and popped; it is kept as a list whose head is the top of the
  stack, its last element in the array.
\<close>

record 'a tarjan_state =
  indices :: "'a \<rightharpoonup> nat"
  lowLinks :: "'a \<rightharpoonup> nat"
  onStack :: "'a set"
  stack :: "'a list"
  sccs :: "'a list list"
  index :: nat

text \<open>
  The first five statements of \<open>strongConnect(node)\<close>.
\<close>

definition sc_enter :: "'a \<Rightarrow> 'a tarjan_state \<Rightarrow> 'a tarjan_state" where
  "sc_enter node st =
     st\<lparr>indices := (indices st)(node \<mapsto> index st),
        lowLinks := (lowLinks st)(node \<mapsto> index st),
        index := index st + 1,
        stack := node # stack st,
        onStack := insert node (onStack st)\<rparr>"

text \<open>
  \<open>lowLinks.set(node, Math.min(lowLinks.get(node), other))\<close>.  When one of the two lookups
  misses, \<open>Math.min\<close> is \<open>NaN\<close> and the run has no meaningful low-link any more; that is
  the result \<open>None\<close>.
\<close>

definition min_low :: "'a \<Rightarrow> nat option \<Rightarrow> 'a tarjan_state \<Rightarrow> 'a tarjan_state option" where
  "min_low node other st =
     (case (lowLinks st node, other) of
        (Some a, Some b) \<Rightarrow> Some (st\<lparr>lowLinks := (lowLinks st)(node \<mapsto> min a b)\<rparr>)
      | _ \<Rightarrow> None)"

text \<open>
  The loop \<open>do { w = stack.pop(); onStack.delete(w); scc.push(w) } while (w !== node)\<close>.  On
  an empty stack \<open>pop()\<close> yields \<open>undefined\<close>, which is not \<open>node\<close>, and the loop goes on
  for ever: the result \<open>None\<close>.
\<close>

fun pop_scc :: "'a \<Rightarrow> 'a list \<Rightarrow> 'a set \<Rightarrow> 'a list \<Rightarrow> ('a list \<times> 'a set \<times> 'a list) option" where
  "pop_scc node [] on scc = None"
| "pop_scc node (w # rest) on scc =
     (if w = node then Some (rest, on - {w}, scc @ [w])
      else pop_scc node rest (on - {w}) (scc @ [w]))"

text \<open>
  The end of \<open>strongConnect(node)\<close>: when \<open>lowLinks.get(node) === indices.get(node)\<close> the
  component of \<open>node\<close> is popped and appended to \<open>sccs\<close>.
\<close>

definition sc_finish :: "'a \<Rightarrow> 'a tarjan_state \<Rightarrow> 'a tarjan_state option" where
  "sc_finish node st =
     (if lowLinks st node = indices st node then
        (case pop_scc node (stack st) (onStack st) [] of
           None \<Rightarrow> None
         | Some (stack', on', scc) \<Rightarrow>
             Some (st\<lparr>stack := stack', onStack := on', sccs := sccs st @ [scc]\<rparr>))
      else Some st)"

text \<open>
  \<open>sc_loop g node nbs st\<close> is the loop of \<open>strongConnect(node)\<close> over the neighbours \<open>nbs\<close>
  still to be considered.  The recursive call \<open>strongConnect(neighbor)\<close> is the entry of
  \<open>neighbor\<close>, its own loop and its end.
\<close>

function sc_loop :: "'a graph \<Rightarrow> 'a \<Rightarrow> 'a list \<Rightarrow> 'a tarjan_state \<Rightarrow> 'a tarjan_state option" where
  "sc_loop g node [] st = Some st"
| "sc_loop g node (neighbor # rest) st =
     (if indices st neighbor = None then
        (case sc_loop g neighbor (vNeighbors g neighbor) (sc_enter neighbor st) of
           None \<Rightarrow> None
         | Some st1 \<Rightarrow>
             (case sc_finish neighbor st1 of
                None \<Rightarrow> None
              | Some st2 \<Rightarrow>
                  (case min_low node (lowLinks st2 neighbor) st2 of
                     None \<Rightarrow> None
                   | Some st3 \<Rightarrow> sc_loop g node rest st3)))
      else if neighbor \<in> onStack st then
        (case min_low node (indices st neighbor) st of
           None \<Rightarrow> None
         | Some st1 \<Rightarrow> sc_loop g node rest st1)
      else sc_loop g node rest st)"
  by pat_completeness auto

lemma min_low_indices: "min_low node other st = Some st' \<Longrightarrow> indices st' = indices st"
  by (auto simp: min_low_def split: option.splits)

lemma sc_finish_indices: "sc_finish node st = Some st' \<Longrightarrow> indices st' = indices st"
  by (auto simp: sc_finish_def split: option.splits if_splits)

lemma sc_loop_indices_mono:
  "sc_loop_dom (g, node, nbs, st) \<Longrightarrow> sc_loop g node nbs st = Some st'
   \<Longrightarrow> dom (indices st) \<subseteq> dom (indices st')"
proof (induction g node nbs st arbitrary: st' rule: sc_loop.pinduct)
  case (1 g node st)
  then show ?case by (simp add: sc_loop.psimps)
next
  case (2 g node neighbor rest st)
  show ?case
  proof (cases "indices st neighbor = None")
    case True
    from "2.prems" "2.hyps" True obtain st1 st2 st3 where
      a: "sc_loop g neighbor (vNeighbors g neighbor) (sc_enter neighbor st) = Some st1"
      and b: "sc_finish neighbor st1 = Some st2"
      and c: "min_low node (lowLinks st2 neighbor) st2 = Some st3"
      and d: "sc_loop g node rest st3 = Some st'"
      by (auto simp: sc_loop.psimps split: option.splits)
    from "2.IH"(1) [OF True a] have "dom (indices (sc_enter neighbor st)) \<subseteq> dom (indices st1)" .
    moreover from "2.IH"(2) [OF True a b c d] have "dom (indices st3) \<subseteq> dom (indices st')" .
    moreover have "dom (indices st) \<subseteq> dom (indices (sc_enter neighbor st))"
      by (auto simp: sc_enter_def)
    moreover have "indices st3 = indices st1"
      using sc_finish_indices [OF b] min_low_indices [OF c] by simp
    ultimately show ?thesis by simp
  next
    case False
    note vis = this
    show ?thesis
    proof (cases "neighbor \<in> onStack st")
      case True
      from "2.prems" "2.hyps" vis True obtain st1 where
        c: "min_low node (indices st neighbor) st = Some st1"
        and d: "sc_loop g node rest st1 = Some st'"
        by (auto simp: sc_loop.psimps split: option.splits)
      from "2.IH"(3) [OF vis True c d] min_low_indices [OF c] show ?thesis by simp
    next
      case False
      with "2.prems" "2.hyps" vis have "sc_loop g node rest st = Some st'"
        by (simp add: sc_loop.psimps)
      from "2.IH"(4) [OF vis False this] show ?thesis .
    qed
  qed
qed

termination sc_loop
proof (relation "measures [\<lambda>(g, node, nbs, st). card ((universe g \<union> set nbs) - dom (indices st)),
                           \<lambda>(g, node, nbs, st). length nbs]")
  show "wf (measures [\<lambda>(g, node, nbs, st). card ((universe g \<union> set nbs) - dom (indices st)),
                      \<lambda>(g :: 'a graph, node :: 'a, nbs, st :: 'a tarjan_state). length nbs])"
    by simp
next
  fix g :: "'a graph" and node neighbor rest and st :: "'a tarjan_state"
  assume nv: "indices st neighbor = None"
  have "(universe g \<union> set (vNeighbors g neighbor)) - dom (indices (sc_enter neighbor st))
        \<subset> (universe g \<union> set (neighbor # rest)) - dom (indices st)"
    using nv vNeighbors_universe [of g neighbor] by (auto simp: sc_enter_def)
  then have "card ((universe g \<union> set (vNeighbors g neighbor)) - dom (indices (sc_enter neighbor st)))
        < card ((universe g \<union> set (neighbor # rest)) - dom (indices st))"
    by (intro psubset_card_mono) auto
  then show "((g, neighbor, vNeighbors g neighbor, sc_enter neighbor st), (g, node, neighbor # rest, st))
        \<in> measures [\<lambda>(g, node, nbs, st). card ((universe g \<union> set nbs) - dom (indices st)),
                     \<lambda>(g, node, nbs, st). length nbs]"
    by simp
next
  fix g :: "'a graph" and node neighbor rest and st x2 x2a x2b :: "'a tarjan_state"
  assume nv: "indices st neighbor = None"
    and call: "sc_loop g neighbor (vNeighbors g neighbor) (sc_enter neighbor st) = Some x2"
    and fin: "sc_finish neighbor x2 = Some x2a"
    and low: "min_low node (lowLinks x2a neighbor) x2a = Some x2b"
    and dom: "sc_loop_dom (g, neighbor, vNeighbors g neighbor, sc_enter neighbor st)"
  from sc_loop_indices_mono [OF dom call] sc_finish_indices [OF fin] min_low_indices [OF low]
  have "dom (indices st) \<subseteq> dom (indices x2b)" by (auto simp: sc_enter_def)
  then have "(universe g \<union> set rest) - dom (indices x2b)
             \<subseteq> (universe g \<union> set (neighbor # rest)) - dom (indices st)"
    by auto
  then have "card ((universe g \<union> set rest) - dom (indices x2b))
             \<le> card ((universe g \<union> set (neighbor # rest)) - dom (indices st))"
    by (intro card_mono) auto
  then show "((g, node, rest, x2b), (g, node, neighbor # rest, st))
        \<in> measures [\<lambda>(g, node, nbs, st). card ((universe g \<union> set nbs) - dom (indices st)),
                     \<lambda>(g, node, nbs, st). length nbs]"
    by auto
next
  fix g :: "'a graph" and node neighbor rest and st x2 :: "'a tarjan_state"
  assume low: "min_low node (indices st neighbor) st = Some x2"
  from min_low_indices [OF low]
  have "(universe g \<union> set rest) - dom (indices x2)
             \<subseteq> (universe g \<union> set (neighbor # rest)) - dom (indices st)"
    by auto
  then have "card ((universe g \<union> set rest) - dom (indices x2))
             \<le> card ((universe g \<union> set (neighbor # rest)) - dom (indices st))"
    by (intro card_mono) auto
  then show "((g, node, rest, x2), (g, node, neighbor # rest, st))
        \<in> measures [\<lambda>(g, node, nbs, st). card ((universe g \<union> set nbs) - dom (indices st)),
                     \<lambda>(g, node, nbs, st). length nbs]"
    by auto
next
  fix g :: "'a graph" and node neighbor rest and st :: "'a tarjan_state"
  have "(universe g \<union> set rest) - dom (indices st)
             \<subseteq> (universe g \<union> set (neighbor # rest)) - dom (indices st)"
    by auto
  then have "card ((universe g \<union> set rest) - dom (indices st))
             \<le> card ((universe g \<union> set (neighbor # rest)) - dom (indices st))"
    by (intro card_mono) auto
  then show "((g, node, rest, st), (g, node, neighbor # rest, st))
        \<in> measures [\<lambda>(g, node, nbs, st). card ((universe g \<union> set nbs) - dom (indices st)),
                     \<lambda>(g, node, nbs, st). length nbs]"
    by auto
qed

definition strongConnect :: "'a graph \<Rightarrow> 'a \<Rightarrow> 'a tarjan_state \<Rightarrow> 'a tarjan_state option" where
  "strongConnect g node st =
     (case sc_loop g node (vNeighbors g node) (sc_enter node st) of
        None \<Rightarrow> None
      | Some st1 \<Rightarrow> sc_finish node st1)"

fun tarjan_outer :: "'a graph \<Rightarrow> 'a list \<Rightarrow> 'a tarjan_state \<Rightarrow> 'a tarjan_state option" where
  "tarjan_outer g [] st = Some st"
| "tarjan_outer g (node # rest) st =
     (if indices st node = None then
        (case strongConnect g node st of
           None \<Rightarrow> None
         | Some st1 \<Rightarrow> tarjan_outer g rest st1)
      else tarjan_outer g rest st)"

record 'a tarjan_result =
  tr_sccs :: "'a list list"
  deadlocks :: "'a list list"
  hasDeadlock :: bool

definition tarjan_init :: "'a tarjan_state" where
  "tarjan_init = \<lparr>indices = Map.empty, lowLinks = Map.empty, onStack = {}, stack = [],
                   sccs = [], index = 0\<rparr>"

definition detectDeadlockTarjan :: "'a graph \<Rightarrow> 'a tarjan_result option" where
  "detectDeadlockTarjan g =
     (case tarjan_outer g (vNodes g) tarjan_init of
        None \<Rightarrow> None
      | Some st \<Rightarrow>
          (let deadlocks = filter (\<lambda>scc. length scc > 1) (sccs st)
           in Some \<lparr>tr_sccs = sccs st, deadlocks = deadlocks, hasDeadlock = (length deadlocks > 0)\<rparr>))"

subsection \<open>Sequences of operations\<close>

text \<open>
  The operations that all three classes of wfgDataStructures.js offer for changing a graph
  (\<open>addNode\<close> exists on the matrix only), applied in order to the instance that
  \<open>createWFG(type, nodes)\<close> returns.
\<close>

datatype 'a wfg_op = AddEdge 'a 'a | RemoveEdge 'a 'a | Clear

fun apply_op :: "'a wfg \<Rightarrow> 'a wfg_op \<Rightarrow> 'a wfg" where
  "apply_op w (AddEdge a b) = addEdge w a b"
| "apply_op w (RemoveEdge a b) = removeEdge w a b"
| "apply_op w Clear = clear w"

definition run_ops :: "wfg_type \<Rightarrow> 'a list \<Rightarrow> 'a wfg_op list \<Rightarrow> 'a wfg" where
  "run_ops ty nodes ops = fold (\<lambda>op w. apply_op w op) ops (createWFG ty nodes)"

fun op_ids :: "'a wfg_op \<Rightarrow> 'a list" where
  "op_ids (AddEdge a b) = [a, b]"
| "op_ids (RemoveEdge a b) = [a, b]"
| "op_ids Clear = []"

text \<open>
  The ids for which a plain object behaves as the association lists above.  A key made of
  digits only may be an integer index, which \<open>Object.keys\<close> lists first and in numeric order;
  a name found on \<open>Object.prototype\<close> is not \<open>undefined\<close> when looked up in an empty object.
  Both the adjacency list and the \<open>nodeIndexMap\<close> of the matrix are plain objects.
\<close>

definition all_digits :: "string \<Rightarrow> bool" where
  "all_digits s \<longleftrightarrow> s \<noteq> [] \<and> (\<forall>c\<in>set s. c \<in> set ''0123456789'')"

definition object_prototype_names :: "string list" where
  "object_prototype_names =
     [''constructor'', ''hasOwnProperty'', ''isPrototypeOf'', ''propertyIsEnumerable'',
      ''toLocaleString'', ''toString'', ''valueOf'', ''__proto__'', ''__defineGetter__'',
      ''__defineSetter__'', ''__lookupGetter__'', ''__lookupSetter__'']"

definition plain_id :: "string \<Rightarrow> bool" where
  "plain_id s \<longleftrightarrow> \<not> all_digits s \<and> s \<notin> set object_prototype_names"

subsection \<open>TransactionManager.detectDeadlock\<close>

text \<open>The method of the manager: it runs \<open>detectDeadlock\<close> on its graph and counts the cycles.\<close>

definition mgr_detectDeadlock :: "manager \<Rightarrow> string detect_result \<times> manager" where
  "mgr_detectDeadlock m =
     (let result = detectDeadlock (graph_of (wfg m))
      in (result,
          if hasCycle result
          then m\<lparr>mgr_metrics := (mgr_metrics m)
                   \<lparr>deadlocksDetected := deadlocksDetected (mgr_metrics m) + length (cycles result)\<rparr>\<rparr>
          else m))"

section \<open>Reachability colouring (App.jsx)\<close>

text \<open>
  \<open>reach[n]\<close> is the set filled by a breadth-first search from \<open>n\<close>; \<open>conflictAdj\<close> joins
  every two distinct nodes of which one reaches the other; the colours are assigned
  greedily in node order.  \<open>reach[a]\<close> and \<open>conflictAdj[a]\<close> are read only for nodes, for
  which they were stored.  \<open>groups\<close> is an object keyed by colour numbers, which JavaScript
  enumerates in ascending order.
\<close>

fun reach_scan :: "'a list \<Rightarrow> 'a list \<times> 'a set \<times> 'a list \<Rightarrow> 'a list \<times> 'a set \<times> 'a list" where
  "reach_scan [] (q, seen, reach) = (q, seen, reach)"
| "reach_scan (nb # nbs) (q, seen, reach) =
     (if nb \<notin> seen then reach_scan nbs (q @ [nb], insert nb seen, set_add reach nb)
      else reach_scan nbs (q, seen, reach))"

lemma reach_scan_measure:
  "finite U \<Longrightarrow> set nbs \<subseteq> U \<Longrightarrow> reach_scan nbs (q, seen, reach) = (q', seen', reach')
   \<Longrightarrow> length q' + card (U - seen') = length q + card (U - seen)"
proof (induction nbs arbitrary: q seen reach)
  case Nil
  then show ?case by simp
next
  case (Cons nb nbs)
  show ?case
  proof (cases "nb \<in> seen")
    case True
    with Cons show ?thesis by simp
  next
    case False
    from Cons.prems False
    have "reach_scan nbs (q @ [nb], insert nb seen, set_add reach nb) = (q', seen', reach')"
      by simp
    from Cons.IH [OF Cons.prems(1) _ this] Cons.prems(2)
    have "length q' + card (U - seen') = length (q @ [nb]) + card (U - insert nb seen)"
      by simp
    moreover have "nb \<in> U - seen" using Cons.prems(2) False by simp
    then have "card (U - seen) = Suc (card (U - insert nb seen))"
      using Cons.prems(1)
      by (metis Diff_insert card_Suc_Diff1 finite_Diff)
    ultimately show ?thesis by simp
  qed
qed

function reach_loop :: "'a graph \<Rightarrow> 'a list \<Rightarrow> 'a set \<Rightarrow> 'a list \<Rightarrow> 'a list" where
  "reach_loop g [] seen reach = reach"
| "reach_loop g (cur # rest) seen reach =
     (case reach_scan (vNeighbors g cur) (rest, seen, reach) of
        (q', seen', reach') \<Rightarrow> reach_loop g q' seen' reach')"
  by pat_completeness auto
termination
proof (relation "measure (\<lambda>(g, q, seen, reach). length q + card (universe g - seen))")
  show "wf (measure (\<lambda>(g, q, seen, reach). length q + card (universe g - seen)))"
    by simp
next
  fix g :: "'a graph" and cur rest seen reach x q' y seen' reach'
  assume sc: "(q', y) = reach_scan (vNeighbors g cur) (rest, seen, reach)"
    and y: "(seen', reach') = y"
  from sc y have "reach_scan (vNeighbors g cur) (rest, seen, reach) = (q', seen', reach')"
    by simp
  from reach_scan_measure [OF finite_universe vNeighbors_universe this]
  have "length q' + card (universe g - seen') = length rest + card (universe g - seen)" .
  then show "((g, q', seen', reach'), (g, cur # rest, seen, reach))
        \<in> measure (\<lambda>(g, q, seen, reach). length q + card (universe g - seen))"
    by simp
qed

definition reach_of :: "'a graph \<Rightarrow> 'a \<Rightarrow> 'a list" where
  "reach_of g n = reach_loop g [n] {n} []"

definition build_reach :: "'a graph \<Rightarrow> 'a list \<Rightarrow> ('a \<times> 'a list) list" where
  "build_reach g nodes = fold (\<lambda>n reach. dict_set reach n (reach_of g n)) nodes []"

definition reach_has :: "('a \<times> 'a list) list \<Rightarrow> 'a \<Rightarrow> 'a \<Rightarrow> bool" where
  "reach_has reach a b = (case dict_get reach a of None \<Rightarrow> False | Some s \<Rightarrow> b \<in> set s)"

definition adj_add :: "('a \<times> 'a list) list \<Rightarrow> 'a \<Rightarrow> 'a \<Rightarrow> ('a \<times> 'a list) list" where
  "adj_add adj a b =
     (case dict_get adj a of None \<Rightarrow> adj | Some s \<Rightarrow> dict_set adj a (set_add s b))"

definition adj_get :: "('a \<times> 'a list) list \<Rightarrow> 'a \<Rightarrow> 'a list" where
  "adj_get adj a = (case dict_get adj a of None \<Rightarrow> [] | Some s \<Rightarrow> s)"

definition conflict_pair :: "('a \<times> 'a list) list \<Rightarrow> 'a \<Rightarrow> 'a
                              \<Rightarrow> ('a \<times> 'a list) list \<Rightarrow> ('a \<times> 'a list) list" where
  "conflict_pair reach a b adj =
     (if a = b then adj
      else if reach_has reach a b \<or> reach_has reach b a then adj_add (adj_add adj a b) b a
      else adj)"

definition build_conflictAdj :: "('a \<times> 'a list) list \<Rightarrow> 'a list \<Rightarrow> ('a \<times> 'a list) list" where
  "build_conflictAdj reach nodes =
     fold (\<lambda>a adj. fold (\<lambda>b adj. conflict_pair reach a b adj) nodes adj) nodes
          (fold (\<lambda>a adj. dict_set adj a []) nodes [])"

function first_free :: "nat list \<Rightarrow> nat \<Rightarrow> nat" where
  "first_free used c = (if c \<in> set used then first_free used (c + 1) else c)"
  by pat_completeness auto
termination
proof (relation "measure (\<lambda>(used, c). length (filter (\<lambda>u. c \<le> u) used))")
  show "wf (measure (\<lambda>(used :: nat list, c). length (filter (\<lambda>u. c \<le> u) used)))" by simp
next
  fix used :: "nat list" and c
  assume c: "c \<in> set used"
  have "length (filter (\<lambda>u. c + 1 \<le> u) used) < length (filter (\<lambda>u. c \<le> u) used)"
  proof -
    have "filter (\<lambda>u. c + 1 \<le> u) used = filter (\<lambda>u. u \<noteq> c) (filter (\<lambda>u. c \<le> u) used)"
      by (induction used) auto
    moreover from c have "c \<in> set (filter (\<lambda>u. c \<le> u) used)" by simp
    ultimately show ?thesis
      by (metis (mono_tags, lifting) length_filter_less)
  qed
  then show "((used, c + 1), (used, c)) \<in> measure (\<lambda>(used, c). length (filter (\<lambda>u. c \<le> u) used))"
    by simp
qed

declare first_free.simps [simp del]

definition color_node :: "('a \<times> 'a list) list \<Rightarrow> 'a \<Rightarrow> ('a \<times> nat) list \<Rightarrow> ('a \<times> nat) list" where
  "color_node conflictAdj node colors =
     (let used = fold (\<lambda>nb used. case dict_get colors nb of None \<Rightarrow> used
                                    | Some c \<Rightarrow> set_add used c)
                      (adj_get conflictAdj node) []
      in dict_set colors node (first_free used 0))"

fun num_dict_push :: "(nat \<times> 'a list) list \<Rightarrow> nat \<Rightarrow> 'a \<Rightarrow> (nat \<times> 'a list) list" where
  "num_dict_push [] c node = [(c, [node])]"
| "num_dict_push ((c', ns) # d) c node =
     (if c' = c then (c', ns @ [node]) # d
      else if c < c' then (c, [node]) # (c', ns) # d
      else (c', ns) # num_dict_push d c node)"

record 'a coloring_result =
  colors :: "('a \<times> nat) list"
  groups :: "(nat \<times> 'a list) list"
  conflictAdj :: "('a \<times> 'a list) list"

definition computeConflictColorsByReachability :: "'a graph \<Rightarrow> 'a coloring_result" where
  "computeConflictColorsByReachability g =
     (let nodes = vNodes g;
          reach = build_reach g nodes;
          adj = build_conflictAdj reach nodes;
          cols = fold (color_node adj) nodes [];
          grps = fold (\<lambda>(node, c) groups. num_dict_push groups c node) cols []
      in \<lparr>colors = cols, groups = grps, conflictAdj = adj\<rparr>)"

record 'a greedy_result =
  gr_colors :: "('a \<times> nat) list"
  gr_groups :: "(nat \<times> 'a list) list"
  chromaticNumber :: nat

definition greedyVertexColoring :: "'a graph \<Rightarrow> 'a greedy_result" where
  "greedyVertexColoring g =
     (let res = computeConflictColorsByReachability g
      in \<lparr>gr_colors = colors res, gr_groups = groups res,
          chromaticNumber = length (dict_keys (groups res))\<rparr>)"

subsection \<open>Distance sums with a positive entry\<close>


section \<open>Concrete inputs\<close>

definition fresh_tx :: "string \<Rightarrow> transaction" where
  "fresh_tx i = \<lparr>tx_id = i, status = Active, heldLocks = [], waitingFor = None\<rparr>"

definition fresh_res :: "string \<Rightarrow> resource" where
  "fresh_res i = \<lparr>res_id = i, lockedBy = None, waitQueue = []\<rparr>"

text \<open>\<open>T1\<close> holds \<open>R1\<close>; \<open>T2\<close> and then \<open>T3\<close> have asked for it and wait.\<close>

definition three_on_one :: "wfg_type \<Rightarrow> manager" where
  "three_on_one ty =
     (let m0 = new_manager ty [fresh_tx ''T1'', fresh_tx ''T2'', fresh_tx ''T3''] [fresh_res ''R1''];
          m1 = snd (acquireLock m0 ''T1'' ''R1'');
          m2 = snd (acquireLock m1 ''T2'' ''R1'')
      in snd (acquireLock m2 ''T3'' ''R1''))"

definition one_holder :: manager where
  "one_holder =
     snd (acquireLock (new_manager adjacencyList [fresh_tx ''T1'', fresh_tx ''T2''] [fresh_res ''R1''])
            ''T1'' ''R1'')"

definition blocked_tx_manager :: manager where
  "blocked_tx_manager =
     new_manager hashMapSets
       [\<lparr>tx_id = ''T1'', status = Blocked, heldLocks = [], waitingFor = None\<rparr>]
       [fresh_res ''R1'']"

text \<open>The scenario of the specification, \<open>T1 \<rightarrow> T2 \<rightarrow> T3 \<rightarrow> T1\<close>, and a graph without a cycle.\<close>

definition triangle_graph :: "string graph" where
  "triangle_graph = [(''T1'', [''T2'']), (''T2'', [''T3'']), (''T3'', [''T1''])]"

definition chain_graph :: "string graph" where
  "chain_graph = [(''T1'', [''T2'']), (''T2'', [''T3'']), (''T3'', [])]"

definition order_ops :: "string wfg_op list" where
  "order_ops = [AddEdge ''T2'' ''T3'', AddEdge ''T1'' ''T3'', AddEdge ''T1'' ''T2'']"

definition clear_ops :: "string wfg_op list" where
  "clear_ops = [AddEdge ''T1'' ''T2'', Clear]"

definition reuse_ops :: "string wfg_op list" where
  "reuse_ops = [AddEdge ''T1'' ''T3'', Clear, AddEdge ''T1'' ''T2'', AddEdge ''T1'' ''T4'']"

text \<open>
  Two deadlocks at once: \<open>T1 \<rightarrow> T2 \<rightarrow> T3 \<rightarrow> T1\<close> over \<open>R1\<close>, \<open>R2\<close>, \<open>R3\<close>, and
  \<open>T4 \<rightarrow> T5 \<rightarrow> T4\<close> over \<open>R4\<close>, \<open>R5\<close>.
\<close>

definition deadlocked :: manager where
  "deadlocked =
     fold (\<lambda>(txId, resId) m. snd (acquireLock m txId resId))
       [(''T1'', ''R1''), (''T2'', ''R2''), (''T3'', ''R3''), (''T4'', ''R4''), (''T5'', ''R5''),
        (''T1'', ''R2''), (''T2'', ''R3''), (''T3'', ''R1''), (''T4'', ''R5''), (''T5'', ''R4'')]
       (new_manager adjacencyList
          [fresh_tx ''T1'', fresh_tx ''T2'', fresh_tx ''T3'', fresh_tx ''T4'', fresh_tx ''T5'']
          [fresh_res ''R1'', fresh_res ''R2'', fresh_res ''R3'', fresh_res ''R4'', fresh_res ''R5''])"

text \<open>Two transactions that wait for the same third one.\<close>

definition fan_graph :: "string graph" where
  "fan_graph = [(''T1'', [''T2'']), (''T2'', []), (''T3'', [''T2''])]"



section \<open>Verified properties\<close>

subsection \<open>Lock manager\<close>

text \<open>
  Claim C1 (holder-pointer invariant).  The invariant asks that a waiting transaction has
  exactly one outgoing edge, to the current holder of the resource it waits for.  The code
  breaks it: \<open>releaseLock\<close> calls \<open>removeWaitEdgesForResource\<close>, which is an empty stub, so
  the edges to the previous holder stay.  With \<open>T1\<close> holding \<open>R1\<close> and \<open>T2\<close>, \<open>T3\<close> queued,
  after \<open>releaseLock(T1, R1)\<close> the holder is \<open>T2\<close>, and \<open>T3\<close> (still waiting for \<open>R1\<close>) has
  two outgoing edges, the first one to the stale holder \<open>T1\<close>.  This holds for each of the
  three graph representations.
\<close>

theorem stale_edge_after_release:
  "map_option status (find_tx (snd (releaseLock (three_on_one ty) ''T1'' ''R1'')) ''T3'')
     = Some Waiting
   \<and> map_option waitingFor (find_tx (snd (releaseLock (three_on_one ty) ''T1'' ''R1'')) ''T3'')
     = Some (Some ''R1'')
   \<and> map_option lockedBy (find_res (snd (releaseLock (three_on_one ty) ''T1'' ''R1'')) ''R1'')
     = Some (Some ''T2'')
   \<and> getNeighbors (wfg (snd (releaseLock (three_on_one ty) ''T1'' ''R1''))) ''T3''
     = [''T1'', ''T2'']"
proof (cases ty)
  case adjacencyList
  show ?thesis unfolding adjacencyList by code_simp
next
  case adjacencyMatrix
  show ?thesis unfolding adjacencyMatrix by code_simp
next
  case hashMapSets
  show ?thesis unfolding hashMapSets by code_simp
qed

text \<open>
  Claim C2 (error atomicity), as stated: every call that reports \<open>success = false\<close> leaves
  the state unchanged.  This fails on the blocking path of \<open>acquireLock\<close>, which reports
  \<open>success: false, updated: true\<close> after it has enqueued the transaction.
\<close>

theorem failed_call_counterexample:
  "\<not> success (fst (acquireLock one_holder ''T2'' ''R1''))
   \<and> snd (acquireLock one_holder ''T2'' ''R1'') \<noteq> one_holder"
proof -
  have a: "\<not> success (fst (acquireLock one_holder ''T2'' ''R1''))"
    by code_simp
  have b: "map waitQueue (resources (snd (acquireLock one_holder ''T2'' ''R1''))) = [[''T2'']]"
    by code_simp
  have c: "map waitQueue (resources one_holder) = [[]]"
    by code_simp
  from b c have "snd (acquireLock one_holder ''T2'' ''R1'') \<noteq> one_holder"
    by auto
  with a show ?thesis by simp
qed

text \<open>
  Claim C2, amended: a call to \<open>releaseLock\<close> or \<open>abortTransaction\<close> that reports failure,
  and a call to \<open>acquireLock\<close> that reports failure with \<open>updated = false\<close>, returns the
  manager it was given, unchanged in every field.
\<close>

theorem failed_call_state_unchanged:
  "(\<not> success (fst (acquireLock m txId resId))
      \<and> updated (fst (acquireLock m txId resId)) = Some False
      \<longrightarrow> snd (acquireLock m txId resId) = m)
   \<and> (\<not> success (fst (releaseLock m txId resId)) \<longrightarrow> snd (releaseLock m txId resId) = m)
   \<and> (\<not> success (fst (abortTransaction m txId)) \<longrightarrow> snd (abortTransaction m txId) = m)"
  by (simp add: acquireLock_def releaseLock_def abortTransaction_def Let_def
           split: option.splits)

theorem failed_call_state_unchanged_witness:
  "(\<not> success (fst (acquireLock one_holder ''T9'' ''R1''))
      \<and> updated (fst (acquireLock one_holder ''T9'' ''R1'')) = Some False)
   \<and> snd (acquireLock one_holder ''T9'' ''R1'') = one_holder
   \<and> \<not> success (fst (releaseLock one_holder ''T2'' ''R1''))
   \<and> snd (releaseLock one_holder ''T2'' ''R1'') = one_holder
   \<and> \<not> success (fst (abortTransaction one_holder ''T9''))
   \<and> snd (abortTransaction one_holder ''T9'') = one_holder"
proof -
  have a: "\<not> success (fst (acquireLock one_holder ''T9'' ''R1''))
      \<and> updated (fst (acquireLock one_holder ''T9'' ''R1'')) = Some False"
    by code_simp
  have r: "\<not> success (fst (releaseLock one_holder ''T2'' ''R1''))"
    by code_simp
  have b: "\<not> success (fst (abortTransaction one_holder ''T9''))"
    by code_simp
  show ?thesis
    using a r b failed_call_state_unchanged [of one_holder "''T9''" "''R1''"]
      failed_call_state_unchanged [of one_holder "''T2''" "''R1''"]
    by blast
qed

text \<open>
  Claim C10 (status gate of \<open>acquireLock\<close>).  For a known transaction whose status is
  neither \<open>active\<close> nor \<open>waiting\<close> (that is, \<open>blocked\<close> or \<open>aborted\<close>), \<open>acquireLock\<close>
  reports failure and returns the manager unchanged, whatever the resource id.
\<close>

theorem acquireLock_status_gate:
  assumes "find_tx m txId = Some tx" and "status tx \<noteq> Active" and "status tx \<noteq> Waiting"
  shows "\<not> success (fst (acquireLock m txId resId)) \<and> snd (acquireLock m txId resId) = m"
  using assms by (simp add: acquireLock_def split: option.splits)

theorem acquireLock_status_gate_witness:
  "find_tx blocked_tx_manager ''T1''
     = Some \<lparr>tx_id = ''T1'', status = Blocked, heldLocks = [], waitingFor = None\<rparr>
   \<and> \<not> success (fst (acquireLock blocked_tx_manager ''T1'' ''R1''))
   \<and> snd (acquireLock blocked_tx_manager ''T1'' ''R1'') = blocked_tx_manager"
proof -
  have f: "find_tx blocked_tx_manager ''T1''
     = Some \<lparr>tx_id = ''T1'', status = Blocked, heldLocks = [], waitingFor = None\<rparr>"
    by (simp add: blocked_tx_manager_def new_manager_def find_tx_def)
  show ?thesis
    using f acquireLock_status_gate [OF f, of "''R1''"] by simp
qed

subsection \<open>Depth-first search of dfsDetectCycle\<close>

text \<open>
  The edges of the graph, and the invariants of the search: the recursion stack is the
  current path, the path is a chain of edges, the finished (black) nodes are closed under
  successors and lie on no cycle, and the first \<open>visit\<close> event of every node on the path
  records the path up to that node.
\<close>

definition edges :: "'a graph \<Rightarrow> ('a \<times> 'a) set" where
  "edges g = {(u, v). v \<in> set (vNeighbors g u)}"

definition chain :: "'a graph \<Rightarrow> 'a list \<Rightarrow> bool" where
  "chain g xs = successively (\<lambda>u v. (u, v) \<in> edges g) xs"

definition black :: "'a dfs_state \<Rightarrow> 'a set" where
  "black st = visited st - recStack st"

definition black_ok :: "'a graph \<Rightarrow> 'a set \<Rightarrow> bool" where
  "black_ok g B \<longleftrightarrow> edges g `` B \<subseteq> B \<and> (\<forall>x\<in>B. (x, x) \<notin> (edges g)\<^sup>+)"

definition parents_ok :: "'a trace_event list \<Rightarrow> 'a list \<Rightarrow> bool" where
  "parents_ok tr p \<longleftrightarrow>
     (\<forall>i<length p. find (is_visit_of (p ! i)) tr = Some (Visit (p ! i) (take (Suc i) p)))"

definition visits_ok :: "'a dfs_state \<Rightarrow> bool" where
  "visits_ok st \<longleftrightarrow> (\<forall>n pth. Visit n pth \<in> set (trace st) \<longrightarrow> n \<in> visited st)"

definition dfs_inv :: "'a graph \<Rightarrow> 'a dfs_state \<Rightarrow> 'a list \<Rightarrow> bool" where
  "dfs_inv g st p \<longleftrightarrow>
     recStack st = set p \<and> recStack st \<subseteq> visited st \<and> chain g p
     \<and> black_ok g (black st) \<and> parents_ok (trace st) p \<and> visits_ok st"

definition post_none :: "'a graph \<Rightarrow> 'a dfs_state \<Rightarrow> 'a dfs_state \<Rightarrow> 'a \<Rightarrow> bool" where
  "post_none g st st' node \<longleftrightarrow>
     recStack st' = recStack st - {node} \<and> visited st \<subseteq> visited st'
     \<and> black_ok g (black st') \<and> (\<exists>ext. trace st' = trace st @ ext) \<and> visits_ok st'
     \<and> cycleFound st' = cycleFound st"

definition post_some :: "'a graph \<Rightarrow> 'a dfs_state \<Rightarrow> 'a list \<Rightarrow> bool" where
  "post_some g st' c \<longleftrightarrow>
     \<not> acyclic (edges g) \<and> cycleFound st' = Some c \<and> 2 \<le> length c \<and> chain g c"

lemma find_append_Some: "find P xs = Some x \<Longrightarrow> find P (xs @ ys) = Some x"
  by (induction xs) (auto split: if_splits)

lemma find_append_None: "find P xs = None \<Longrightarrow> find P (xs @ ys) = find P ys"
  by (induction xs) (auto split: if_splits)

lemma parents_ok_append: "parents_ok tr p \<Longrightarrow> parents_ok (tr @ ext) p"
  by (simp add: parents_ok_def find_append_Some)

lemma parents_ok_butlast: "parents_ok tr (p @ [x]) \<Longrightarrow> parents_ok tr p"
  unfolding parents_ok_def
proof (intro allI impI)
  fix i assume a: "\<forall>i<length (p @ [x]). find (is_visit_of ((p @ [x]) ! i)) tr = Some (Visit ((p @ [x]) ! i) (take (Suc i) (p @ [x])))"
    and i: "i < length p"
  from a i have "find (is_visit_of ((p @ [x]) ! i)) tr = Some (Visit ((p @ [x]) ! i) (take (Suc i) (p @ [x])))"
    by simp
  with i show "find (is_visit_of (p ! i)) tr = Some (Visit (p ! i) (take (Suc i) p))"
    by (simp add: nth_append)
qed

lemma no_visit_find: "\<forall>pth. Visit n pth \<notin> set tr \<Longrightarrow> find (is_visit_of n) tr = None"
proof (induction tr)
  case Nil
  then show ?case by simp
next
  case (Cons e tr)
  then show ?case by (cases e) auto
qed

lemma parents_ok_enter:
  assumes "parents_ok tr p" and "\<forall>pth. Visit n pth \<notin> set tr"
  shows "parents_ok (tr @ [Visit n (p @ [n])]) (p @ [n])"
  unfolding parents_ok_def
proof (intro allI impI)
  fix i assume i: "i < length (p @ [n])"
  show "find (is_visit_of ((p @ [n]) ! i)) (tr @ [Visit n (p @ [n])])
        = Some (Visit ((p @ [n]) ! i) (take (Suc i) (p @ [n])))"
  proof (cases "i < length p")
    case True
    with assms(1) have "find (is_visit_of (p ! i)) tr = Some (Visit (p ! i) (take (Suc i) p))"
      by (simp add: parents_ok_def)
    with True show ?thesis by (simp add: nth_append find_append_Some)
  next
    case False
    with i have e: "i = length p" by simp
    from assms(2) have "find (is_visit_of n) tr = None" by (rule no_visit_find)
    then have "find (is_visit_of n) (tr @ [Visit n (p @ [n])]) = Some (Visit n (p @ [n]))"
      by (simp add: find_append_None)
    with e show ?thesis by simp
  qed
qed

lemma chain_reach:
  "chain g xs \<Longrightarrow> x \<in> set xs \<Longrightarrow> (x, last xs) \<in> (edges g)\<^sup>*"
proof (induction xs arbitrary: x)
  case Nil
  then show ?case by simp
next
  case (Cons y ys)
  show ?case
  proof (cases "ys = []")
    case True
    with Cons.prems show ?thesis by simp
  next
    case False
    with Cons.prems(1) have e: "(y, hd ys) \<in> edges g" and c: "chain g ys"
      by (auto simp: chain_def successively_Cons)
    from False have h: "hd ys \<in> set ys" by simp
    from Cons.IH [OF c h] have "(hd ys, last ys) \<in> (edges g)\<^sup>*" .
    with e have y: "(y, last ys) \<in> (edges g)\<^sup>*" by (rule converse_rtrancl_into_rtrancl)
    show ?thesis
    proof (cases "x = y")
      case True
      with y False show ?thesis by simp
    next
      case neq: False
      with Cons.prems(2) have "x \<in> set ys" by simp
      from Cons.IH [OF c this] False show ?thesis by simp
    qed
  qed
qed

lemma parent_of_path:
  assumes "parents_ok tr p" and "Suc k < length p"
  shows "parent_of tr (p ! Suc k) = Some (p ! k)"
proof -
  from assms have "find (is_visit_of (p ! Suc k)) tr = Some (Visit (p ! Suc k) (take (Suc (Suc k)) p))"
    by (simp add: parents_ok_def)
  moreover from assms(2) have "length (take (Suc (Suc k)) p) = Suc (Suc k)" by simp
  moreover from assms(2) have "take (Suc (Suc k)) p ! k = p ! k" by simp
  ultimately show ?thesis by (simp add: parent_of_def)
qed

lemma walk_back_result:
  assumes "parents_ok tr p"
  shows "k < length p \<Longrightarrow> neighbor \<in> set (take (Suc k) p)
         \<Longrightarrow> \<exists>j\<le>k. p ! j = neighbor
               \<and> walk_back tr neighbor (Some (p ! k)) acc
                   = Some (acc @ rev (drop (Suc j) (take (Suc k) p)))"
proof (induction k arbitrary: acc)
  case 0
  then have "take (Suc 0) p = [p ! 0]" by (cases p) auto
  with 0 have "p ! 0 = neighbor" by simp
  then show ?case by (simp add: walk_back.simps)
next
  case (Suc k)
  show ?case
  proof (cases "p ! Suc k = neighbor")
    case True
    then have "walk_back tr neighbor (Some (p ! Suc k)) acc = Some acc"
      by (simp add: walk_back.simps)
    with True show ?thesis by (intro exI [where x = "Suc k"]) simp
  next
    case False
    from Suc.prems(1) have tk: "take (Suc (Suc k)) p = take (Suc k) p @ [p ! Suc k]"
      by (simp add: take_Suc_conv_app_nth)
    with Suc.prems(2) False have n: "neighbor \<in> set (take (Suc k) p)" by auto
    from Suc.prems(1) have k: "k < length p" by simp
    from Suc.IH [OF k n, of "acc @ [p ! Suc k]"] obtain j where j: "j \<le> k" "p ! j = neighbor"
      and w: "walk_back tr neighbor (Some (p ! k)) (acc @ [p ! Suc k])
              = Some ((acc @ [p ! Suc k]) @ rev (drop (Suc j) (take (Suc k) p)))"
      by blast
    from j(1) k have "drop (Suc j) (take (Suc (Suc k)) p) = drop (Suc j) (take (Suc k) p) @ [p ! Suc k]"
      unfolding tk by simp
    then have "(acc @ [p ! Suc k]) @ rev (drop (Suc j) (take (Suc k) p))
               = acc @ rev (drop (Suc j) (take (Suc (Suc k)) p))"
      by simp
    with w False parent_of_path [OF assms Suc.prems(1)]
    have "walk_back tr neighbor (Some (p ! Suc k)) acc
          = Some (acc @ rev (drop (Suc j) (take (Suc (Suc k)) p)))"
      by (subst walk_back.simps) simp
    with j show ?thesis by (intro exI [where x = j]) simp
  qed
qed

lemma walk_back_from_last:
  assumes "parents_ok tr (path @ [node])" and "neighbor \<in> set (path @ [node])"
  shows "\<exists>j\<le>length path. (path @ [node]) ! j = neighbor
           \<and> walk_back tr neighbor (Some node) acc
               = Some (acc @ rev (drop (Suc j) (path @ [node])))"
proof -
  have "length path < length (path @ [node])" by simp
  moreover have "neighbor \<in> set (take (Suc (length path)) (path @ [node]))"
    using assms(2) by simp
  ultimately have "\<exists>j\<le>length path. (path @ [node]) ! j = neighbor
     \<and> walk_back tr neighbor (Some ((path @ [node]) ! length path)) acc
         = Some (acc @ rev (drop (Suc j) (take (Suc (length path)) (path @ [node]))))"
    by (rule walk_back_result [OF assms(1)])
  then show ?thesis by simp
qed

lemma chain_drop: "chain g p \<Longrightarrow> chain g (drop j p)"
proof -
  assume "chain g p"
  then have "successively (\<lambda>u v. (u, v) \<in> edges g) (take j p @ drop j p)"
    by (simp add: chain_def)
  then show ?thesis unfolding chain_def successively_append_iff by blast
qed

lemma chain_snoc:
  "chain g p \<Longrightarrow> p \<noteq> [] \<Longrightarrow> (last p, x) \<in> edges g \<Longrightarrow> chain g (p @ [x])"
  by (simp add: chain_def successively_append_iff)

lemma black_ok_finish:
  assumes "black_ok g B" and "edges g `` {v} \<subseteq> B" and "v \<notin> B"
  shows "black_ok g (insert v B)"
proof -
  from assms(1) have cl: "edges g `` B \<subseteq> B" by (simp add: black_ok_def)
  then have cls: "(edges g)\<^sup>* `` B = B" by (rule Image_closed_trancl)
  have "(v, v) \<notin> (edges g)\<^sup>+"
  proof
    assume "(v, v) \<in> (edges g)\<^sup>+"
    then obtain w where w: "(v, w) \<in> edges g" and r: "(w, v) \<in> (edges g)\<^sup>*"
      by (meson tranclD)
    from w assms(2) have "w \<in> B" by blast
    with r have "v \<in> (edges g)\<^sup>* `` B" by blast
    with cls assms(3) show False by simp
  qed
  moreover have "edges g `` insert v B \<subseteq> insert v B"
    using cl assms(2) by blast
  ultimately show ?thesis using assms(1) by (simp add: black_ok_def)
qed

lemma dfs_invD:
  assumes "dfs_inv g st p"
  shows "recStack st = set p" and "recStack st \<subseteq> visited st" and "chain g p"
    and "black_ok g (black st)" and "parents_ok (trace st) p" and "visits_ok st"
  using assms unfolding dfs_inv_def by blast+

lemma dfs_inv_edge:
  assumes "dfs_inv g st p"
  shows "dfs_inv g (st\<lparr>trace := trace st @ [Edge a b]\<rparr>) p"
  using assms by (auto simp: dfs_inv_def black_def visits_ok_def parents_ok_append)

lemma dfs_inv_enter:
  assumes inv: "dfs_inv g st (path @ [node])" and nb: "neighbor \<in> set (vNeighbors g node)"
    and nv: "neighbor \<notin> visited st"
  shows "dfs_inv g (enter neighbor (path @ [node]) st) ((path @ [node]) @ [neighbor])"
proof -
  let ?p = "path @ [node]"
  let ?st = "enter neighbor ?p st"
  from inv have rs: "recStack st = set ?p" and sub: "recStack st \<subseteq> visited st"
    and ch: "chain g ?p" and bl: "black_ok g (black st)" and pa: "parents_ok (trace st) ?p"
    and vo: "visits_ok st"
    by (rule dfs_invD)+
  have 1: "recStack ?st = set (?p @ [neighbor])" using rs by (auto simp: enter_def)
  have 2: "recStack ?st \<subseteq> visited ?st" using sub by (auto simp: enter_def)
  have 3: "chain g (?p @ [neighbor])"
    using ch nb by (simp add: chain_def successively_append_iff edges_def)
  have "black ?st = black st" using nv by (auto simp: enter_def black_def)
  with bl have 4: "black_ok g (black ?st)" by simp
  from vo nv have "\<forall>pth. Visit neighbor pth \<notin> set (trace st)" by (auto simp: visits_ok_def)
  from parents_ok_enter [OF pa this]
  have 5: "parents_ok (trace ?st) (?p @ [neighbor])" by (simp add: enter_def)
  have 6: "visits_ok ?st" using vo by (auto simp: visits_ok_def enter_def)
  from 1 2 3 4 5 6 show ?thesis unfolding dfs_inv_def by blast
qed

lemma dfs_inv_return:
  assumes invE: "dfs_inv g (enter neighbor p st) (p @ [neighbor])"
    and inv: "dfs_inv g st p"
    and nv: "neighbor \<notin> visited st"
    and post: "post_none g (enter neighbor p st) st2 neighbor"
  shows "dfs_inv g st2 p" and "neighbor \<in> black st2" and "black st \<subseteq> black st2"
    and "recStack st2 = recStack st"
proof -
  from inv have rs: "recStack st = set p" and sub: "recStack st \<subseteq> visited st"
    and ch: "chain g p" by (rule dfs_invD)+
  from post have r2: "recStack st2 = recStack (enter neighbor p st) - {neighbor}"
    and v2: "visited (enter neighbor p st) \<subseteq> visited st2"
    and b2: "black_ok g (black st2)" and vo2: "visits_ok st2"
    and ext: "\<exists>ext. trace st2 = trace (enter neighbor p st) @ ext"
    by (simp_all add: post_none_def)
  from sub nv have "neighbor \<notin> recStack st" by blast
  with r2 show rr: "recStack st2 = recStack st" by (auto simp: enter_def)
  from v2 have vm: "visited st \<subseteq> visited st2" and nvis: "neighbor \<in> visited st2"
    by (auto simp: enter_def)
  from nvis rr \<open>neighbor \<notin> recStack st\<close> show "neighbor \<in> black st2" by (simp add: black_def)
  from vm rr show "black st \<subseteq> black st2" by (auto simp: black_def)
  from invE have "parents_ok (trace (enter neighbor p st)) (p @ [neighbor])" by (rule dfs_invD)
  then have "parents_ok (trace (enter neighbor p st)) p" by (rule parents_ok_butlast)
  with ext have "parents_ok (trace st2) p" by (auto simp: parents_ok_append)
  with rr rs sub vm ch b2 vo2 show "dfs_inv g st2 p" unfolding dfs_inv_def by blast
qed

lemma post_none_trans:
  assumes "post_none g (enter neighbor p (st\<lparr>trace := trace st @ [e]\<rparr>)) st2 neighbor"
    and "recStack st2 = recStack st"
    and "post_none g st2 st' node"
  shows "post_none g st st' node"
  using assms by (auto simp: post_none_def enter_def)

lemma post_none_edge:
  assumes "post_none g (st\<lparr>trace := trace st @ [e]\<rparr>) st' node"
  shows "post_none g st st' node"
  using assms by (auto simp: post_none_def)

lemma post_none_finish:
  assumes inv: "dfs_inv g st (path @ [node])" and nbs: "set (vNeighbors g node) \<subseteq> black st"
  shows "post_none g st (st\<lparr>recStack := recStack st - {node}, trace := trace st @ [Backtrack node]\<rparr>) node"
proof -
  let ?st = "st\<lparr>recStack := recStack st - {node}, trace := trace st @ [Backtrack node]\<rparr>"
  from inv have rs: "recStack st = set (path @ [node])" and sub: "recStack st \<subseteq> visited st"
    and bl: "black_ok g (black st)" and vo: "visits_ok st"
    by (rule dfs_invD)+
  from rs sub have nv: "node \<in> visited st" and nr: "node \<in> recStack st" by auto
  then have b: "black ?st = insert node (black st)" by (auto simp: black_def)
  from nr have nb: "node \<notin> black st" by (simp add: black_def)
  from nbs have "edges g `` {node} \<subseteq> black st" by (auto simp: edges_def)
  from black_ok_finish [OF bl this nb] b have "black_ok g (black ?st)" by simp
  moreover have "visits_ok ?st" using vo by (auto simp: visits_ok_def)
  ultimately show ?thesis by (simp add: post_none_def)
qed

lemma back_edge_cycle:
  assumes inv: "dfs_inv g st (path @ [node])" and nb: "neighbor \<in> set (vNeighbors g node)"
    and rs: "neighbor \<in> recStack st"
  shows "\<not> acyclic (edges g)"
proof -
  from dfs_invD(1,3) [OF inv] rs have "neighbor \<in> set (path @ [node])" and "chain g (path @ [node])"
    by simp_all
  from chain_reach [OF this(2) this(1)] have "(neighbor, node) \<in> (edges g)\<^sup>*" by simp
  moreover from nb have "(node, neighbor) \<in> edges g" by (simp add: edges_def)
  ultimately have "(neighbor, neighbor) \<in> (edges g)\<^sup>+" by (rule rtrancl_into_trancl1)
  then show ?thesis by (auto simp: acyclic_def)
qed

lemma visit_loop_spec:
  "dfs_inv g st (path @ [node]) \<Longrightarrow> set nbs \<subseteq> set (vNeighbors g node)
   \<Longrightarrow> set (vNeighbors g node) \<subseteq> set nbs \<union> black st
   \<Longrightarrow> \<exists>r st'. visit_loop g node path nbs st = Some (r, st')
          \<and> (case r of None \<Rightarrow> post_none g st st' node | Some c \<Rightarrow> post_some g st' c)"
proof (induction g node path nbs st rule: visit_loop.induct)
  case (1 g node path st)
  from post_none_finish [OF "1.prems"(1)] "1.prems"(3) show ?case by simp
next
  case (2 g node path neighbor rest st)
  let ?p = "path @ [node]"
  let ?st1 = "st\<lparr>trace := trace st @ [Edge node neighbor]\<rparr>"
  from "2.prems"(1) have inv1: "dfs_inv g ?st1 ?p" by (rule dfs_inv_edge)
  from "2.prems"(2) have nb: "neighbor \<in> set (vNeighbors g node)" and rest: "set rest \<subseteq> set (vNeighbors g node)"
    by auto
  have bl1: "black ?st1 = black st" by (simp add: black_def)
  show ?case
  proof (cases "neighbor \<in> visited st")
    case False
    let ?stE = "enter neighbor ?p ?st1"
    from False have nv1: "neighbor \<notin> visited ?st1" by simp
    from dfs_inv_enter [OF inv1 nb nv1] have invE: "dfs_inv g ?stE (?p @ [neighbor])" .
    have "\<exists>r st'. visit_loop g neighbor ?p (vNeighbors g neighbor) ?stE = Some (r, st')
          \<and> (case r of None \<Rightarrow> post_none g ?stE st' neighbor | Some c \<Rightarrow> post_some g st' c)"
      by (rule "2.IH"(1) [OF refl nv1 invE]) auto
    then obtain r2 st2 where call: "visit_loop g neighbor ?p (vNeighbors g neighbor) ?stE = Some (r2, st2)"
      and post2: "case r2 of None \<Rightarrow> post_none g ?stE st2 neighbor | Some c \<Rightarrow> post_some g st2 c"
      by blast
    show ?thesis
    proof (cases r2)
      case (Some c)
      with call post2 False show ?thesis by (simp add: Let_def)
    next
      case None
      with post2 have pn: "post_none g ?stE st2 neighbor" by simp
      note ret = dfs_inv_return [OF invE inv1 nv1 pn]
      from ret(2,3) "2.prems"(3) bl1
      have cov: "set (vNeighbors g node) \<subseteq> set rest \<union> black st2" by auto
      have "\<exists>r st'. visit_loop g node path rest st2 = Some (r, st')
          \<and> (case r of None \<Rightarrow> post_none g st2 st' node | Some c \<Rightarrow> post_some g st' c)"
        by (rule "2.IH"(2) [OF refl nv1 call refl None ret(1) rest cov])
      then obtain r st' where call': "visit_loop g node path rest st2 = Some (r, st')"
        and post': "case r of None \<Rightarrow> post_none g st2 st' node | Some c \<Rightarrow> post_some g st' c"
        by blast
      from call call' None False
      have res: "visit_loop g node path (neighbor # rest) st = Some (r, st')"
        by (simp add: Let_def)
      show ?thesis
      proof (cases r)
        case None
        with post' have "post_none g st2 st' node" by simp
        from post_none_trans [OF pn _ this] ret(4) have "post_none g st st' node" by simp
        with res None show ?thesis by simp
      next
        case (Some c)
        with post' res show ?thesis by simp
      qed
    qed
  next
    case True
    note vis = this
    show ?thesis
    proof (cases "neighbor \<in> recStack st")
      case True
      from dfs_invD(1) [OF inv1] True have mem: "neighbor \<in> set ?p" by simp
      from inv1 have pa: "parents_ok (trace ?st1) ?p" by (rule dfs_invD)
      from walk_back_from_last [OF pa mem, of "[neighbor]"]
      obtain j where j: "j \<le> length path" "?p ! j = neighbor"
        and w: "walk_back (trace ?st1) neighbor (Some node) [neighbor]
                = Some ([neighbor] @ rev (drop (Suc j) ?p))"
        by blast
      define cyc where "cyc = [neighbor] @ rev (drop (Suc j) ?p)"
      from w have w': "walk_back (trace ?st1) neighbor (Some node) [neighbor] = Some cyc"
        unfolding cyc_def .
      from back_edge_cycle [OF "2.prems"(1) nb True] have cyclic: "\<not> acyclic (edges g)" .
      from inv1 have ch: "chain g ?p" by (rule dfs_invD)
      from nb have e: "(node, neighbor) \<in> edges g" by (simp add: edges_def)
      show ?thesis
      proof (cases "length cyc < 2")
        case True
        with w' vis \<open>neighbor \<in> recStack st\<close>
        have "visit_loop g node path (neighbor # rest) st = Some (report_cycle (path @ [node, neighbor]) ?st1)"
          by (simp add: Let_def)
        moreover from chain_snoc [OF ch _ , of neighbor] e have "chain g (path @ [node, neighbor])"
          by simp
        ultimately show ?thesis using cyclic by (simp add: report_cycle_def post_some_def)
      next
        case False
        with w' vis \<open>neighbor \<in> recStack st\<close>
        have res: "visit_loop g node path (neighbor # rest) st = Some (report_cycle (rev (cyc @ [neighbor])) ?st1)"
          by (simp add: Let_def)
        from j have "drop j ?p = neighbor # drop (Suc j) ?p"
          by (metis Cons_nth_drop_Suc le_imp_less_Suc length_append_singleton)
        then have eq: "rev (cyc @ [neighbor]) = drop j ?p @ [neighbor]" by (simp add: cyc_def)
        from j(1) have ne: "drop j ?p \<noteq> []" by simp
        from j(1) have "last (drop j ?p) = last ?p" by (intro last_drop) simp
        then have "last (drop j ?p) = node" by (simp del: drop_append)
        with chain_snoc [OF chain_drop [OF ch, of j] ne, of neighbor] e
        have "chain g (rev (cyc @ [neighbor]))" unfolding eq by simp
        moreover from False have "2 \<le> length (rev (cyc @ [neighbor]))" by simp
        ultimately show ?thesis using res cyclic by (simp add: report_cycle_def post_some_def)
      qed
    next
      case False
      with vis have "neighbor \<in> black st" by (simp add: black_def)
      with "2.prems"(3) bl1 have cov: "set (vNeighbors g node) \<subseteq> set rest \<union> black ?st1" by auto
      have "\<exists>r st'. visit_loop g node path rest ?st1 = Some (r, st')
          \<and> (case r of None \<Rightarrow> post_none g ?st1 st' node | Some c \<Rightarrow> post_some g st' c)"
        using vis False by (intro "2.IH"(3) [OF refl _ _ inv1 rest cov]) simp_all
      then obtain r st' where call': "visit_loop g node path rest ?st1 = Some (r, st')"
        and post': "case r of None \<Rightarrow> post_none g ?st1 st' node | Some c \<Rightarrow> post_some g st' c"
        by blast
      from call' vis False have res: "visit_loop g node path (neighbor # rest) st = Some (r, st')"
        by (simp add: Let_def)
      show ?thesis
      proof (cases r)
        case None
        with post' have "post_none g ?st1 st' node" by simp
        then have "post_none g st st' node" by (rule post_none_edge)
        with res None show ?thesis by simp
      next
        case (Some c)
        with post' res show ?thesis by simp
      qed
    qed
  qed
qed

definition outer_inv :: "'a graph \<Rightarrow> 'a dfs_state \<Rightarrow> bool" where
  "outer_inv g st \<longleftrightarrow>
     recStack st = {} \<and> black_ok g (visited st) \<and> visits_ok st \<and> cycleFound st = None"

lemma dfs_inv_root:
  assumes "outer_inv g st" and "node \<notin> visited st"
  shows "dfs_inv g (enter node [] st) ([] @ [node])"
proof -
  let ?st = "enter node [] st"
  from assms(1) have rs: "recStack st = {}" and bl: "black_ok g (visited st)" and vo: "visits_ok st"
    by (simp_all add: outer_inv_def)
  from rs assms(2) have "black ?st = visited st" by (auto simp: black_def enter_def)
  with bl have 1: "black_ok g (black ?st)" by simp
  from vo assms(2) have "\<forall>pth. Visit node pth \<notin> set (trace st)" by (auto simp: visits_ok_def)
  moreover have "parents_ok (trace st) []" by (simp add: parents_ok_def)
  ultimately have "parents_ok (trace st @ [Visit node ([] @ [node])]) ([] @ [node])"
    by (intro parents_ok_enter)
  then have 2: "parents_ok (trace ?st) ([] @ [node])" by (simp add: enter_def)
  have 3: "visits_ok ?st" using vo by (auto simp: visits_ok_def enter_def)
  have 4: "recStack ?st = set ([] @ [node])" using rs by (simp add: enter_def)
  have 5: "recStack ?st \<subseteq> visited ?st" using rs by (simp add: enter_def)
  have 6: "chain g ([] @ [node])" by (simp add: chain_def)
  from 1 2 3 4 5 6 show ?thesis unfolding dfs_inv_def by blast
qed

lemma dfsVisit_root:
  assumes "outer_inv g st" and "node \<notin> visited st"
  shows "\<exists>r st'. dfsVisit g node [] st = Some (r, st')
          \<and> (case r of None \<Rightarrow> outer_inv g st' \<and> insert node (visited st) \<subseteq> visited st'
                | Some c \<Rightarrow> post_some g st' c)"
proof -
  let ?st = "enter node [] st"
  from dfs_inv_root [OF assms] have inv: "dfs_inv g ?st ([] @ [node])" .
  have "\<exists>r st'. visit_loop g node [] (vNeighbors g node) ?st = Some (r, st')
          \<and> (case r of None \<Rightarrow> post_none g ?st st' node | Some c \<Rightarrow> post_some g st' c)"
    by (rule visit_loop_spec [OF inv]) auto
  then obtain r st' where call: "dfsVisit g node [] st = Some (r, st')"
    and post: "case r of None \<Rightarrow> post_none g ?st st' node | Some c \<Rightarrow> post_some g st' c"
    by (auto simp: dfsVisit_def)
  show ?thesis
  proof (cases r)
    case (Some c)
    with call post show ?thesis by simp
  next
    case None
    with post have pn: "post_none g ?st st' node" by simp
    from assms(1) have rs: "recStack st = {}" and cf: "cycleFound st = None"
      by (simp_all add: outer_inv_def)
    from pn rs have r': "recStack st' = {}" by (auto simp: post_none_def enter_def)
    from pn have v': "insert node (visited st) \<subseteq> visited st'"
      by (auto simp: post_none_def enter_def)
    from pn r' have "black_ok g (visited st')" by (simp add: post_none_def black_def)
    moreover from pn have "visits_ok st'" by (simp add: post_none_def)
    moreover from pn cf have "cycleFound st' = None" by (simp add: post_none_def enter_def)
    ultimately have "outer_inv g st'" using r' by (simp add: outer_inv_def)
    with v' call None show ?thesis by simp
  qed
qed

lemma dfs_outer_spec:
  "outer_inv g st \<Longrightarrow>
   \<exists>st'. dfs_outer g ns st = Some st'
     \<and> (case cycleFound st' of
           None \<Rightarrow> outer_inv g st' \<and> set ns \<union> visited st \<subseteq> visited st'
         | Some c \<Rightarrow> \<not> acyclic (edges g) \<and> 2 \<le> length c \<and> chain g c)"
proof (induction ns arbitrary: st)
  case Nil
  then show ?case by (simp add: outer_inv_def)
next
  case (Cons node rest)
  show ?case
  proof (cases "node \<in> visited st")
    case True
    from Cons.IH [OF Cons.prems] obtain st' where
      "dfs_outer g rest st = Some st'"
      "case cycleFound st' of None \<Rightarrow> outer_inv g st' \<and> set rest \<union> visited st \<subseteq> visited st'
         | Some c \<Rightarrow> \<not> acyclic (edges g) \<and> 2 \<le> length c \<and> chain g c"
      by blast
    with True show ?thesis by (auto split: option.splits)
  next
    case False
    from dfsVisit_root [OF Cons.prems False] obtain r st1 where
      call: "dfsVisit g node [] st = Some (r, st1)"
      and post: "case r of None \<Rightarrow> outer_inv g st1 \<and> insert node (visited st) \<subseteq> visited st1
                | Some c \<Rightarrow> post_some g st1 c"
      by blast
    show ?thesis
    proof (cases r)
      case (Some c)
      with call post False show ?thesis by (simp add: post_some_def)
    next
      case None
      with post have inv1: "outer_inv g st1" and v1: "insert node (visited st) \<subseteq> visited st1"
        by simp_all
      from Cons.IH [OF inv1] obtain st' where
        o: "dfs_outer g rest st1 = Some st'"
        and p: "case cycleFound st' of None \<Rightarrow> outer_inv g st' \<and> set rest \<union> visited st1 \<subseteq> visited st'
           | Some c \<Rightarrow> \<not> acyclic (edges g) \<and> 2 \<le> length c \<and> chain g c"
        by blast
      from o call None False have "dfs_outer g (node # rest) st = Some st'" by simp
      with p v1 show ?thesis by (auto split: option.splits)
    qed
  qed
qed

lemma edge_source_is_node:
  assumes "(x, y) \<in> edges g" shows "x \<in> set (vNodes g)"
proof -
  from assms have "vNeighbors g x \<noteq> []" by (auto simp: edges_def)
  then obtain ns where "map_of g x = Some ns" by (auto simp: vNeighbors_def split: option.splits)
  then have "(x, ns) \<in> set g" by (rule map_of_SomeD)
  then show ?thesis by (force simp: vNodes_def)
qed

lemma black_ok_all_acyclic:
  assumes "black_ok g V" and "set (vNodes g) \<subseteq> V"
  shows "acyclic (edges g)"
proof (rule acyclicI, rule allI, rule notI)
  fix x assume c: "(x, x) \<in> (edges g)\<^sup>+"
  then obtain y where "(x, y) \<in> edges g" by (meson tranclD)
  then have "x \<in> set (vNodes g)" by (rule edge_source_is_node)
  with assms(2) have "x \<in> V" by blast
  with assms(1) c show False by (auto simp: black_ok_def)
qed

lemma outer_inv_init: "outer_inv g dfs_init"
  by (simp add: outer_inv_def dfs_init_def black_ok_def visits_ok_def)

lemma dfsDetectCycle_sound_complete:
  "\<exists>r. dfsDetectCycle g = Some r \<and> (dr_cycle r = None \<longleftrightarrow> acyclic (edges g))"
proof -
  from dfs_outer_spec [OF outer_inv_init, of g "vNodes g"] obtain st' where
    o: "dfs_outer g (vNodes g) dfs_init = Some st'"
    and p: "case cycleFound st' of None \<Rightarrow> outer_inv g st' \<and> set (vNodes g) \<union> visited dfs_init \<subseteq> visited st'
           | Some c \<Rightarrow> \<not> acyclic (edges g) \<and> 2 \<le> length c \<and> chain g c"
    by blast
  show ?thesis
  proof (cases "cycleFound st'")
    case None
    with p have "black_ok g (visited st')" and "set (vNodes g) \<subseteq> visited st'"
      by (simp_all add: outer_inv_def)
    then have "acyclic (edges g)" by (rule black_ok_all_acyclic)
    with o None show ?thesis by (simp add: dfsDetectCycle_def)
  next
    case (Some c)
    with p o show ?thesis by (simp add: dfsDetectCycle_def)
  qed
qed

subsection \<open>Depth-first search of detectDeadlock\<close>

text \<open>
  Until the first cycle is recorded the search keeps the same invariants as above.  From
  then on \<open>recStack\<close> is no longer the current path (\<open>dfs\<close> returns \<open>true\<close> without
  removing its nodes), but the list of cycles stays non-empty.
\<close>

definition dd_black :: "'a detect_state \<Rightarrow> 'a set" where
  "dd_black st = dd_visited st - dd_recStack st"

definition dd_inv :: "'a graph \<Rightarrow> 'a detect_state \<Rightarrow> 'a list \<Rightarrow> bool" where
  "dd_inv g st p \<longleftrightarrow>
     dd_cycles st = [] \<and> dd_recStack st = set p \<and> dd_recStack st \<subseteq> dd_visited st
     \<and> chain g p \<and> black_ok g (dd_black st)"

definition dd_post :: "'a graph \<Rightarrow> 'a detect_state \<Rightarrow> 'a detect_state \<Rightarrow> 'a \<Rightarrow> bool" where
  "dd_post g st st' node \<longleftrightarrow>
     dd_cycles st' = [] \<and> dd_recStack st' = dd_recStack st - {node}
     \<and> dd_visited st \<subseteq> dd_visited st' \<and> black_ok g (dd_black st')"

lemma dd_invD:
  assumes "dd_inv g st p"
  shows "dd_cycles st = []" and "dd_recStack st = set p" and "dd_recStack st \<subseteq> dd_visited st"
    and "chain g p" and "black_ok g (dd_black st)"
  using assms unfolding dd_inv_def by blast+

lemma dd_inv_enter:
  assumes inv: "dd_inv g st (pre @ [node])" and nb: "neighbor \<in> set (vNeighbors g node)"
    and nv: "neighbor \<notin> dd_visited st"
  shows "dd_inv g (dd_mark neighbor st) ((pre @ [node]) @ [neighbor])"
proof -
  let ?p = "pre @ [node]"
  let ?st = "dd_mark neighbor st"
  note d = dd_invD [OF inv]
  have 1: "dd_recStack ?st = set (?p @ [neighbor])" using d(2) by (auto simp: dd_mark_def)
  have 2: "dd_recStack ?st \<subseteq> dd_visited ?st" using d(3) by (auto simp: dd_mark_def)
  have 3: "chain g (?p @ [neighbor])"
    using d(4) nb by (simp add: chain_def successively_append_iff edges_def)
  have "dd_black ?st = dd_black st" using nv by (auto simp: dd_mark_def dd_black_def)
  with d(5) have 4: "black_ok g (dd_black ?st)" by simp
  have 5: "dd_cycles ?st = []" using d(1) by (simp add: dd_mark_def)
  from 1 2 3 4 5 show ?thesis unfolding dd_inv_def by blast
qed

lemma dd_inv_return:
  assumes inv: "dd_inv g st p" and nv: "neighbor \<notin> dd_visited st"
    and post: "dd_post g (dd_mark neighbor st) st2 neighbor"
  shows "dd_inv g st2 p" and "neighbor \<in> dd_black st2" and "dd_black st \<subseteq> dd_black st2"
    and "dd_post g st2 st' node \<Longrightarrow> dd_post g st st' node"
proof -
  note d = dd_invD [OF inv]
  from post have c2: "dd_cycles st2 = []"
    and r2: "dd_recStack st2 = dd_recStack (dd_mark neighbor st) - {neighbor}"
    and v2: "dd_visited (dd_mark neighbor st) \<subseteq> dd_visited st2"
    and b2: "black_ok g (dd_black st2)"
    unfolding dd_post_def by blast+
  from d(3) nv have nr: "neighbor \<notin> dd_recStack st" by blast
  with r2 have rr: "dd_recStack st2 = dd_recStack st" by (auto simp: dd_mark_def)
  from v2 have vm: "dd_visited st \<subseteq> dd_visited st2" and nvis: "neighbor \<in> dd_visited st2"
    by (auto simp: dd_mark_def)
  from nvis rr nr show "neighbor \<in> dd_black st2" by (simp add: dd_black_def)
  from vm rr show "dd_black st \<subseteq> dd_black st2" by (auto simp: dd_black_def)
  from c2 rr d(2,3,4) vm b2 show "dd_inv g st2 p" unfolding dd_inv_def by blast
  assume "dd_post g st2 st' node"
  with rr vm show "dd_post g st st' node" unfolding dd_post_def by auto
qed

lemma dd_post_finish:
  assumes inv: "dd_inv g st (pre @ [node])" and nbs: "set (vNeighbors g node) \<subseteq> dd_black st"
  shows "dd_post g st (st\<lparr>dd_recStack := dd_recStack st - {node}\<rparr>) node"
proof -
  let ?st = "st\<lparr>dd_recStack := dd_recStack st - {node}\<rparr>"
  note d = dd_invD [OF inv]
  from d(2,3) have nv: "node \<in> dd_visited st" and nr: "node \<in> dd_recStack st" by auto
  then have b: "dd_black ?st = insert node (dd_black st)" by (auto simp: dd_black_def)
  from nr have nb: "node \<notin> dd_black st" by (simp add: dd_black_def)
  from nbs have "edges g `` {node} \<subseteq> dd_black st" by (auto simp: edges_def)
  from black_ok_finish [OF d(5) this nb] b have "black_ok g (dd_black ?st)" by simp
  with d(1) show ?thesis by (simp add: dd_post_def)
qed

lemma dd_back_edge_cycle:
  assumes inv: "dd_inv g st (pre @ [node])" and nb: "neighbor \<in> set (vNeighbors g node)"
    and rs: "neighbor \<in> dd_recStack st"
  shows "\<not> acyclic (edges g)"
proof -
  from dd_invD(2,4) [OF inv] rs have "neighbor \<in> set (pre @ [node])" and "chain g (pre @ [node])"
    by simp_all
  from chain_reach [OF this(2) this(1)] have "(neighbor, node) \<in> (edges g)\<^sup>*" by simp
  moreover from nb have "(node, neighbor) \<in> edges g" by (simp add: edges_def)
  ultimately have "(neighbor, neighbor) \<in> (edges g)\<^sup>+" by (rule rtrancl_into_trancl1)
  then show ?thesis by (auto simp: acyclic_def)
qed

lemma dd_record_first:
  "dd_cycles st = [] \<Longrightarrow> dd_cycles (dd_record path neighbor st) \<noteq> []"
  by (simp add: dd_record_def isCycleDuplicate_def Let_def)

lemma dd_loop_spec:
  "dd_inv g st (pre @ [node]) \<Longrightarrow> path = pre @ [node] \<Longrightarrow> set nbs \<subseteq> set (vNeighbors g node)
   \<Longrightarrow> set (vNeighbors g node) \<subseteq> set nbs \<union> dd_black st
   \<Longrightarrow> dd_loop g node path nbs st = (r, st')
   \<Longrightarrow> (\<not> r \<and> dd_post g st st' node) \<or> (r \<and> dd_cycles st' \<noteq> [] \<and> \<not> acyclic (edges g))"
proof (induction g node path nbs st arbitrary: pre r st' rule: dd_loop.induct)
  case (1 g node path st)
  from dd_post_finish [OF "1.prems"(1)] "1.prems"(4,5) show ?case by auto
next
  case (2 g node path neighbor rest st)
  note inv = "2.prems"(1) and path = "2.prems"(2)
  from "2.prems"(3) have nb: "neighbor \<in> set (vNeighbors g node)"
    and rest: "set rest \<subseteq> set (vNeighbors g node)" by auto
  show ?case
  proof (cases "neighbor \<in> dd_visited st")
    case False
    obtain r2 st2 where call: "dd_loop g neighbor (path @ [neighbor]) (vNeighbors g neighbor) (dd_mark neighbor st) = (r2, st2)"
      by (cases "dd_loop g neighbor (path @ [neighbor]) (vNeighbors g neighbor) (dd_mark neighbor st)")
    from dd_inv_enter [OF inv nb False] have invE: "dd_inv g (dd_mark neighbor st) ((pre @ [node]) @ [neighbor])" .
    have alt: "(\<not> r2 \<and> dd_post g (dd_mark neighbor st) st2 neighbor)
               \<or> (r2 \<and> dd_cycles st2 \<noteq> [] \<and> \<not> acyclic (edges g))"
      by (rule "2.IH"(1) [OF False invE _ _ _ call]) (auto simp: path)
    show ?thesis
    proof (cases r2)
      case True
      with call False "2.prems"(5) have "r = True" "st' = st2" by simp_all
      with alt True show ?thesis by simp
    next
      case r2: False
      with alt have pn: "dd_post g (dd_mark neighbor st) st2 neighbor" by simp
      note ret = dd_inv_return [OF inv False pn]
      from ret(2,3) "2.prems"(4) have cov: "set (vNeighbors g node) \<subseteq> set rest \<union> dd_black st2"
        by auto
      from call False r2 "2.prems"(5) have c: "dd_loop g node path rest st2 = (r, st')" by simp
      have "(\<not> r \<and> dd_post g st2 st' node) \<or> (r \<and> dd_cycles st' \<noteq> [] \<and> \<not> acyclic (edges g))"
        by (rule "2.IH"(2) [OF False call [symmetric] _ ret(1) path rest cov c]) (simp add: r2)
      with ret(4) show ?thesis by blast
    qed
  next
    case True
    note vis = this
    show ?thesis
    proof (cases "neighbor \<in> dd_recStack st")
      case True
      with vis "2.prems"(5) have "r = True" "st' = dd_record path neighbor st" by simp_all
      moreover from dd_invD(1) [OF inv] have "dd_cycles (dd_record path neighbor st) \<noteq> []"
        by (rule dd_record_first)
      moreover from dd_back_edge_cycle [OF inv nb True] have "\<not> acyclic (edges g)" .
      ultimately show ?thesis by simp
    next
      case False
      with vis have "neighbor \<in> dd_black st" by (simp add: dd_black_def)
      with "2.prems"(4) have cov: "set (vNeighbors g node) \<subseteq> set rest \<union> dd_black st" by auto
      from vis False "2.prems"(5) have c: "dd_loop g node path rest st = (r, st')" by simp
      show ?thesis
        using vis False by (intro "2.IH"(3) [OF _ _ inv path rest cov c]) simp_all
    qed
  qed
qed

lemma dd_loop_cycles_grow:
  "dd_cycles st \<noteq> [] \<Longrightarrow> dd_cycles (snd (dd_loop g node path nbs st)) \<noteq> []"
proof (induction g node path nbs st rule: dd_loop.induct)
  case (1 g node path st)
  then show ?case by simp
next
  case (2 g node path neighbor rest st)
  show ?case
  proof (cases "neighbor \<in> dd_visited st")
    case False
    obtain r2 st2 where call: "dd_loop g neighbor (path @ [neighbor]) (vNeighbors g neighbor) (dd_mark neighbor st) = (r2, st2)"
      by (cases "dd_loop g neighbor (path @ [neighbor]) (vNeighbors g neighbor) (dd_mark neighbor st)")
    from "2.prems" have "dd_cycles (dd_mark neighbor st) \<noteq> []" by (simp add: dd_mark_def)
    from "2.IH"(1) [OF False this] call have c2: "dd_cycles st2 \<noteq> []" by simp
    show ?thesis
    proof (cases r2)
      case True
      with call False c2 show ?thesis by simp
    next
      case r2: False
      from "2.IH"(2) [OF False call [symmetric] _ c2] r2
      have "dd_cycles (snd (dd_loop g node path rest st2)) \<noteq> []" by simp
      with call False r2 show ?thesis by simp
    qed
  next
    case True
    note vis = this
    show ?thesis
    proof (cases "neighbor \<in> dd_recStack st")
      case True
      with vis "2.prems" show ?thesis by (simp add: dd_record_def Let_def)
    next
      case False
      from "2.IH"(3) [OF _ False "2.prems"] vis False show ?thesis by simp
    qed
  qed
qed

definition dd_outer_inv :: "'a graph \<Rightarrow> 'a detect_state \<Rightarrow> bool" where
  "dd_outer_inv g st \<longleftrightarrow>
     (dd_cycles st = [] \<and> dd_recStack st = {} \<and> black_ok g (dd_visited st))
     \<or> (dd_cycles st \<noteq> [] \<and> \<not> acyclic (edges g))"

lemma dd_dfs_root:
  assumes "dd_outer_inv g st" and "node \<notin> dd_visited st"
  shows "dd_outer_inv g (snd (dd_dfs g node [] st))"
    and "dd_cycles (snd (dd_dfs g node [] st)) = []
         \<Longrightarrow> insert node (dd_visited st) \<subseteq> dd_visited (snd (dd_dfs g node [] st))"
proof -
  obtain r st' where call: "dd_loop g node ([] @ [node]) (vNeighbors g node) (dd_mark node st) = (r, st')"
    by (cases "dd_loop g node ([] @ [node]) (vNeighbors g node) (dd_mark node st)")
  then have s: "snd (dd_dfs g node [] st) = st'" by (simp add: dd_dfs_def)
  have "dd_outer_inv g st' \<and> (dd_cycles st' = [] \<longrightarrow> insert node (dd_visited st) \<subseteq> dd_visited st')"
  proof (cases "dd_cycles st = []")
    case False
    then have "dd_cycles (dd_mark node st) \<noteq> []" by (simp add: dd_mark_def)
    from dd_loop_cycles_grow [OF this, of g node "[] @ [node]" "vNeighbors g node"] call
    have "dd_cycles st' \<noteq> []" by simp
    with False assms(1) show ?thesis by (auto simp: dd_outer_inv_def)
  next
    case True
    with assms(1) have rs: "dd_recStack st = {}" and bl: "black_ok g (dd_visited st)"
      by (auto simp: dd_outer_inv_def)
    let ?st = "dd_mark node st"
    from rs assms(2) have "dd_black ?st = dd_visited st" by (auto simp: dd_black_def dd_mark_def)
    with bl have "black_ok g (dd_black ?st)" by simp
    moreover have "chain g ([] @ [node])" by (simp add: chain_def)
    moreover have "dd_recStack ?st = set ([] @ [node])" using rs by (simp add: dd_mark_def)
    moreover have "dd_recStack ?st \<subseteq> dd_visited ?st" using rs by (simp add: dd_mark_def)
    moreover have "dd_cycles ?st = []" using True by (simp add: dd_mark_def)
    ultimately have inv: "dd_inv g ?st ([] @ [node])" unfolding dd_inv_def by blast
    have "(\<not> r \<and> dd_post g ?st st' node) \<or> (r \<and> dd_cycles st' \<noteq> [] \<and> \<not> acyclic (edges g))"
      by (rule dd_loop_spec [OF inv refl _ _ call]) auto
    then show ?thesis
    proof
      assume "\<not> r \<and> dd_post g ?st st' node"
      then have pn: "dd_post g ?st st' node" by simp
      then have "dd_cycles st' = []" and r': "dd_recStack st' = dd_recStack ?st - {node}"
        and v': "dd_visited ?st \<subseteq> dd_visited st'" and b': "black_ok g (dd_black st')"
        unfolding dd_post_def by blast+
      from r' rs have "dd_recStack st' = {}" by (auto simp: dd_mark_def)
      with b' have "black_ok g (dd_visited st')" by (simp add: dd_black_def)
      with \<open>dd_cycles st' = []\<close> \<open>dd_recStack st' = {}\<close> v' show ?thesis
        by (auto simp: dd_outer_inv_def dd_mark_def)
    next
      assume "r \<and> dd_cycles st' \<noteq> [] \<and> \<not> acyclic (edges g)"
      then show ?thesis by (simp add: dd_outer_inv_def)
    qed
  qed
  with s show "dd_outer_inv g (snd (dd_dfs g node [] st))"
    and "dd_cycles (snd (dd_dfs g node [] st)) = []
         \<Longrightarrow> insert node (dd_visited st) \<subseteq> dd_visited (snd (dd_dfs g node [] st))"
    by simp_all
qed

lemma dd_dfs_cycles_grow:
  "dd_cycles st \<noteq> [] \<Longrightarrow> dd_cycles (snd (dd_dfs g node [] st)) \<noteq> []"
  unfolding dd_dfs_def by (rule dd_loop_cycles_grow) (simp add: dd_mark_def)

lemma dd_outer_cycles_grow:
  "dd_cycles st \<noteq> [] \<Longrightarrow> dd_cycles (dd_outer g ns st) \<noteq> []"
proof (induction ns arbitrary: st)
  case Nil
  then show ?case by simp
next
  case (Cons node rest)
  show ?case
  proof (cases "node \<in> dd_visited st")
    case True
    with Cons.IH [OF Cons.prems] show ?thesis by simp
  next
    case False
    from Cons.prems have "dd_cycles (snd (dd_dfs g node [] st)) \<noteq> []"
      by (rule dd_dfs_cycles_grow)
    from Cons.IH [OF this] False show ?thesis by simp
  qed
qed

lemma dd_outer_spec:
  "dd_outer_inv g st \<Longrightarrow>
   dd_outer_inv g (dd_outer g ns st)
   \<and> (dd_cycles (dd_outer g ns st) = [] \<longrightarrow> set ns \<union> dd_visited st \<subseteq> dd_visited (dd_outer g ns st))"
proof (induction ns arbitrary: st)
  case Nil
  then show ?case by simp
next
  case (Cons node rest)
  show ?case
  proof (cases "node \<in> dd_visited st")
    case True
    from Cons.IH [OF Cons.prems]
    have a: "dd_outer_inv g (dd_outer g rest st)"
      and b: "dd_cycles (dd_outer g rest st) = [] \<longrightarrow> set rest \<union> dd_visited st \<subseteq> dd_visited (dd_outer g rest st)"
      by simp_all
    from True have eq: "dd_outer g (node # rest) st = dd_outer g rest st" by simp
    from b True have "dd_cycles (dd_outer g rest st) = [] \<longrightarrow> set (node # rest) \<union> dd_visited st \<subseteq> dd_visited (dd_outer g rest st)"
      by auto
    with a show ?thesis unfolding eq by simp
  next
    case False
    let ?st1 = "snd (dd_dfs g node [] st)"
    let ?st2 = "dd_outer g rest ?st1"
    note root = dd_dfs_root [OF Cons.prems False]
    from Cons.IH [OF root(1)]
    have a: "dd_outer_inv g ?st2"
      and b: "dd_cycles ?st2 = [] \<longrightarrow> set rest \<union> dd_visited ?st1 \<subseteq> dd_visited ?st2"
      by simp_all
    from False have eq: "dd_outer g (node # rest) st = ?st2" by simp
    have "set (node # rest) \<union> dd_visited st \<subseteq> dd_visited ?st2" if e: "dd_cycles ?st2 = []"
    proof -
      from e dd_outer_cycles_grow [of ?st1 g rest] have "dd_cycles ?st1 = []" by blast
      from root(2) [OF this] have "insert node (dd_visited st) \<subseteq> dd_visited ?st1" .
      moreover from b e have "set rest \<union> dd_visited ?st1 \<subseteq> dd_visited ?st2" by simp
      ultimately show ?thesis by auto
    qed
    with a show ?thesis unfolding eq by simp
  qed
qed

lemma detectDeadlock_sound_complete:
  "hasCycle (detectDeadlock g) = False \<longleftrightarrow> acyclic (edges g)"
proof -
  let ?init = "\<lparr>dd_visited = {}, dd_recStack = {}, dd_cycles = []\<rparr> :: 'a detect_state"
  have "dd_outer_inv g ?init" by (simp add: dd_outer_inv_def black_ok_def)
  from dd_outer_spec [OF this, of "vNodes g"]
  have inv: "dd_outer_inv g (dd_outer g (vNodes g) ?init)"
    and vis: "dd_cycles (dd_outer g (vNodes g) ?init) = []
              \<longrightarrow> set (vNodes g) \<subseteq> dd_visited (dd_outer g (vNodes g) ?init)"
    by simp_all
  show ?thesis
  proof (cases "dd_cycles (dd_outer g (vNodes g) ?init) = []")
    case True
    with inv have "black_ok g (dd_visited (dd_outer g (vNodes g) ?init))"
      by (simp add: dd_outer_inv_def)
    moreover from vis True have "set (vNodes g) \<subseteq> dd_visited (dd_outer g (vNodes g) ?init)" by simp
    ultimately have "acyclic (edges g)" by (rule black_ok_all_acyclic)
    with True show ?thesis by (simp add: detectDeadlock_def Let_def)
  next
    case False
    with inv have "\<not> acyclic (edges g)" by (simp add: dd_outer_inv_def)
    with False show ?thesis by (simp add: detectDeadlock_def Let_def)
  qed
qed

text \<open>
  Claim C4 (soundness and completeness of the depth-first detectors).  \<open>detectDeadlock\<close>
  reports \<open>hasCycle = false\<close>, and \<open>dfsDetectCycle\<close> returns with \<open>cycle = null\<close>, exactly
  when the graph given by \<open>getNodes()\<close> and \<open>getNeighbors()\<close> is acyclic; on the empty graph
  both report no cycle and zero visited nodes.
\<close>

theorem dfs_detectors_sound_complete:
  "(hasCycle (detectDeadlock g) = False \<longleftrightarrow> acyclic (edges g))
   \<and> (\<exists>r. dfsDetectCycle g = Some r \<and> (dr_cycle r = None \<longleftrightarrow> acyclic (edges g)))
   \<and> detectDeadlock ([] :: 'a graph) = \<lparr>hasCycle = False, cycles = [], visitedNodes = 0\<rparr>
   \<and> dfsDetectCycle ([] :: 'a graph) = Some \<lparr>dr_cycle = None, dr_trace = [], dr_visited = 0\<rparr>"
proof -
  have "detectDeadlock ([] :: 'a graph) = \<lparr>hasCycle = False, cycles = [], visitedNodes = 0\<rparr>"
    by (simp add: detectDeadlock_def vNodes_def)
  moreover
  have "dfsDetectCycle ([] :: 'a graph) = Some \<lparr>dr_cycle = None, dr_trace = [], dr_visited = 0\<rparr>"
    by (simp add: dfsDetectCycle_def vNodes_def dfs_init_def)
  ultimately show ?thesis
    using detectDeadlock_sound_complete [of g] dfsDetectCycle_sound_complete [of g] by blast
qed

theorem dfs_detectors_sound_complete_witness:
  "acyclic (edges chain_graph) \<and> \<not> acyclic (edges triangle_graph)"
proof -
  have a: "hasCycle (detectDeadlock chain_graph) = False"
    by code_simp
  have b: "hasCycle (detectDeadlock triangle_graph) = True"
    by code_simp
  from a b show ?thesis
    using dfs_detectors_sound_complete [of chain_graph]
      dfs_detectors_sound_complete [of triangle_graph]
    by blast
qed

subsection \<open>Victim selection\<close>







subsection \<open>The three graph representations\<close>

text \<open>
  Facts about the adjacency list and the map of sets, which are the same association list,
  and about the matrix.  \<open>mx_ok\<close> is the class invariant of the matrix: the nodes are
  distinct, \<open>nodeIndexMap\<close> is the inverse of the node array, and the matrix is square.
\<close>

definition add_key :: "'a list \<Rightarrow> 'a \<Rightarrow> 'a list" where
  "add_key ks k = (if k \<in> set ks then ks else ks @ [k])"

lemma dict_get_set: "dict_get (dict_set d k v) k' = (if k' = k then Some v else dict_get d k')"
  by (induction d) (auto simp: dict_get_def)

lemma dict_get_None: "dict_get d k = None \<longleftrightarrow> k \<notin> set (dict_keys d)"
  by (simp add: dict_get_def dict_keys_def map_of_eq_None_iff)

lemma dict_get_Some_key: "dict_get d k = Some v \<Longrightarrow> k \<in> set (dict_keys d)"
  using dict_get_None [of d k] by auto

lemma dict_keys_set: "dict_keys (dict_set d k v) = add_key (dict_keys d) k"
proof (induction d)
  case Nil
  then show ?case by (simp add: dict_keys_def add_key_def)
next
  case (Cons p d)
  obtain k' v' where p: "p = (k', v')" by (cases p)
  show ?case
  proof (cases "k' = k")
    case True
    with p show ?thesis by (simp add: dict_keys_def add_key_def)
  next
    case False
    with p Cons.IH show ?thesis by (simp add: dict_keys_def add_key_def)
  qed
qed

lemma dict_set_same: "dict_get d k = Some v \<Longrightarrow> dict_set d k v = d"
  by (induction d) (auto simp: dict_get_def split: if_splits)

lemma al_getNeighbors_addEdge:
  "al_getNeighbors (al_addEdge g a b) u =
     (if u = a then set_add (al_getNeighbors g a) b else al_getNeighbors g u)"
  by (auto simp: al_getNeighbors_def al_addEdge_def dict_get_set set_add_def Let_def
           split: option.splits)

lemma al_getNodes_addEdge:
  "al_getNodes (al_addEdge g a b) = add_key (add_key (al_getNodes g) a) b"
proof -
  let ?g1 = "case dict_get g a of None \<Rightarrow> dict_set g a [] | Some _ \<Rightarrow> g"
  have k1: "dict_keys ?g1 = add_key (dict_keys g) a"
  proof (cases "dict_get g a")
    case None
    then show ?thesis by (simp add: dict_keys_set)
  next
    case (Some ns)
    from dict_get_Some_key [OF this] Some show ?thesis by (simp add: add_key_def)
  qed
  have a1: "a \<in> set (dict_keys ?g1)" unfolding k1 by (simp add: add_key_def)
  let ?g2 = "case dict_get ?g1 a of None \<Rightarrow> ?g1
             | Some ns \<Rightarrow> if b \<in> set ns then ?g1 else dict_set ?g1 a (ns @ [b])"
  have k2: "dict_keys ?g2 = dict_keys ?g1"
    using a1 by (auto simp: dict_keys_set add_key_def split: option.splits)
  let ?g3 = "case dict_get ?g2 b of None \<Rightarrow> dict_set ?g2 b [] | Some _ \<Rightarrow> ?g2"
  have k3: "dict_keys ?g3 = add_key (dict_keys ?g2) b"
  proof (cases "dict_get ?g2 b")
    case None
    then show ?thesis by (simp add: dict_keys_set)
  next
    case (Some ns)
    from dict_get_Some_key [OF this] Some show ?thesis by (simp add: add_key_def)
  qed
  have "al_addEdge g a b = ?g3" by (simp add: al_addEdge_def Let_def)
  with k1 k2 k3 show ?thesis by (simp add: al_getNodes_def)
qed

lemma al_getNeighbors_removeEdge:
  "al_getNeighbors (al_removeEdge g a b) u =
     (if u = a then set_delete (al_getNeighbors g a) b else al_getNeighbors g u)"
  by (auto simp: al_getNeighbors_def al_removeEdge_def dict_get_set set_delete_def
           split: option.splits)

lemma al_getNodes_removeEdge: "al_getNodes (al_removeEdge g a b) = al_getNodes g"
proof (cases "dict_get g a")
  case None
  then show ?thesis by (simp add: al_removeEdge_def)
next
  case (Some ns)
  from dict_get_Some_key [OF this] Some show ?thesis
    by (simp add: al_getNodes_def al_removeEdge_def dict_keys_set add_key_def)
qed

lemma hm_addEdge_eq: "hm_addEdge g a b = al_addEdge g a b"
proof -
  let ?g1 = "case dict_get g a of None \<Rightarrow> dict_set g a [] | Some _ \<Rightarrow> g"
  have 1: "(if dict_get g a = None then dict_set g a [] else g) = ?g1"
    by (simp split: option.splits)
  have 2: "(case dict_get ?g1 a of None \<Rightarrow> ?g1 | Some s \<Rightarrow> dict_set ?g1 a (set_add s b))
         = (case dict_get ?g1 a of None \<Rightarrow> ?g1
            | Some ns \<Rightarrow> if b \<in> set ns then ?g1 else dict_set ?g1 a (ns @ [b]))"
    (is "?h2 = ?a2")
  proof (cases "dict_get ?g1 a")
    case None
    then show ?thesis by simp
  next
    case (Some s)
    from dict_set_same [OF this] Some show ?thesis by (simp add: set_add_def)
  qed
  have 3: "(if dict_get ?a2 b = None then dict_set ?a2 b [] else ?a2)
         = (case dict_get ?a2 b of None \<Rightarrow> dict_set ?a2 b [] | Some _ \<Rightarrow> ?a2)"
    by (simp split: option.splits)
  show ?thesis
    unfolding hm_addEdge_def al_addEdge_def Let_def 1 2 3 ..
qed

lemma hm_removeEdge_eq: "hm_removeEdge g a b = al_removeEdge g a b"
  by (simp add: hm_removeEdge_def al_removeEdge_def set_delete_def split: option.splits)

lemma hm_getNeighbors_eq: "hm_getNeighbors g u = al_getNeighbors g u"
  by (simp add: hm_getNeighbors_def al_getNeighbors_def)

lemma hm_getNodes_eq: "hm_getNodes g = al_getNodes g"
  by (simp add: hm_getNodes_def al_getNodes_def)

lemma al_hasEdge_iff: "al_hasEdge g u v \<longleftrightarrow> v \<in> set (al_getNeighbors g u)"
  by (simp add: al_hasEdge_def al_getNeighbors_def split: option.splits)

lemma hm_hasEdge_eq: "hm_hasEdge g u v = al_hasEdge g u v"
  by (simp add: hm_hasEdge_def al_hasEdge_def)

lemma al_neighbors_node: "v \<in> set (al_getNeighbors g u) \<Longrightarrow> u \<in> set (al_getNodes g)"
proof (cases "dict_get g u")
  case None
  assume "v \<in> set (al_getNeighbors g u)"
  with None show ?thesis by (simp add: al_getNeighbors_def)
next
  case (Some ns)
  from dict_get_Some_key [OF this] show ?thesis by (simp add: al_getNodes_def)
qed

definition mx_ok :: "'a adjacency_matrix \<Rightarrow> bool" where
  "mx_ok w \<longleftrightarrow>
     distinct (mx_nodes w)
     \<and> (\<forall>n i. nodeIndexMap w n = Some i \<longleftrightarrow> i < length (mx_nodes w) \<and> mx_nodes w ! i = n)
     \<and> length (matrix w) = length (mx_nodes w)
     \<and> (\<forall>i < length (matrix w). length (matrix w ! i) = length (mx_nodes w))"

lemma mx_okD:
  assumes "mx_ok w"
  shows "distinct (mx_nodes w)"
    and "nodeIndexMap w n = Some i \<longleftrightarrow> i < length (mx_nodes w) \<and> mx_nodes w ! i = n"
    and "length (matrix w) = length (mx_nodes w)"
    and "i < length (mx_nodes w) \<Longrightarrow> length (matrix w ! i) = length (mx_nodes w)"
  using assms unfolding mx_ok_def by auto

lemma mx_index_None: "mx_ok w \<Longrightarrow> nodeIndexMap w n = None \<longleftrightarrow> n \<notin> set (mx_nodes w)"
proof -
  assume ok: "mx_ok w"
  show ?thesis
  proof
    assume none: "nodeIndexMap w n = None"
    show "n \<notin> set (mx_nodes w)"
    proof
      assume "n \<in> set (mx_nodes w)"
      then obtain i where "i < length (mx_nodes w)" "mx_nodes w ! i = n"
        by (auto simp: in_set_conv_nth)
      with mx_okD(2) [OF ok, of n i] none show False by simp
    qed
  next
    assume nin: "n \<notin> set (mx_nodes w)"
    show "nodeIndexMap w n = None"
    proof (cases "nodeIndexMap w n")
      case None then show ?thesis .
    next
      case (Some i)
      with mx_okD(2) [OF ok, of n i] nin show ?thesis by auto
    qed
  qed
qed

definition mx_entry :: "'a adjacency_matrix \<Rightarrow> nat \<Rightarrow> nat \<Rightarrow> nat" where
  "mx_entry w i j = matrix w ! i ! j"

lemma mx_hasEdge_entry:
  assumes "mx_ok w"
  shows "mx_hasEdge w u v \<longleftrightarrow>
         (\<exists>i j. i < length (mx_nodes w) \<and> j < length (mx_nodes w)
                \<and> mx_nodes w ! i = u \<and> mx_nodes w ! j = v \<and> mx_entry w i j = 1)"
proof
  assume "mx_hasEdge w u v"
  then obtain i j where "nodeIndexMap w u = Some i" "nodeIndexMap w v = Some j" "matrix w ! i ! j = 1"
    by (auto simp: mx_hasEdge_def split: option.splits)
  with mx_okD(2) [OF assms] show "\<exists>i j. i < length (mx_nodes w) \<and> j < length (mx_nodes w)
                \<and> mx_nodes w ! i = u \<and> mx_nodes w ! j = v \<and> mx_entry w i j = 1"
    by (auto simp: mx_entry_def)
next
  assume "\<exists>i j. i < length (mx_nodes w) \<and> j < length (mx_nodes w)
                \<and> mx_nodes w ! i = u \<and> mx_nodes w ! j = v \<and> mx_entry w i j = 1"
  then obtain i j where ij: "i < length (mx_nodes w)" "j < length (mx_nodes w)"
    "mx_nodes w ! i = u" "mx_nodes w ! j = v" "mx_entry w i j = 1" by blast
  from ij(1,3) mx_okD(2) [OF assms, of u i] have "nodeIndexMap w u = Some i" by simp
  moreover from ij(2,4) mx_okD(2) [OF assms, of v j] have "nodeIndexMap w v = Some j" by simp
  ultimately show "mx_hasEdge w u v" using ij(5) by (simp add: mx_hasEdge_def mx_entry_def)
qed

lemma mx_getNeighbors_iff:
  assumes "mx_ok w"
  shows "v \<in> set (mx_getNeighbors w u) \<longleftrightarrow> mx_hasEdge w u v"
proof (cases "nodeIndexMap w u")
  case None
  then show ?thesis by (simp add: mx_getNeighbors_def mx_hasEdge_def)
next
  case (Some i)
  with mx_okD(2) [OF assms, of u i] have i: "i < length (mx_nodes w)" "mx_nodes w ! i = u" by auto
  from mx_okD(4) [OF assms i(1)] have len: "length (matrix w ! i) = length (mx_nodes w)" .
  show ?thesis
  proof
    assume "v \<in> set (mx_getNeighbors w u)"
    with Some len obtain j where j: "j < length (mx_nodes w)" "matrix w ! i ! j = 1" "v = mx_nodes w ! j"
      by (auto simp: mx_getNeighbors_def)
    from j(1,3) mx_okD(2) [OF assms, of v j] have "nodeIndexMap w v = Some j" by simp
    with Some j(2) show "mx_hasEdge w u v" by (simp add: mx_hasEdge_def)
  next
    assume "mx_hasEdge w u v"
    with Some obtain j where j: "nodeIndexMap w v = Some j" "matrix w ! i ! j = 1"
      by (auto simp: mx_hasEdge_def split: option.splits)
    from j(1) mx_okD(2) [OF assms, of v j] have "j < length (mx_nodes w)" "mx_nodes w ! j = v" by auto
    with j(2) Some len show "v \<in> set (mx_getNeighbors w u)"
      by (auto simp: mx_getNeighbors_def intro!: image_eqI [where x = j])
  qed
qed

lemma mx_hasEdge_node: "mx_ok w \<Longrightarrow> mx_hasEdge w u v \<Longrightarrow> u \<in> set (mx_nodes w)"
  by (auto simp: mx_hasEdge_entry)

lemma mx_ok_addNode:
  assumes "mx_ok w" shows "mx_ok (mx_addNode w n)"
proof (cases "nodeIndexMap w n")
  case (Some i)
  with assms show ?thesis by (simp add: mx_addNode_def)
next
  case None
  with mx_index_None [OF assms] have nin: "n \<notin> set (mx_nodes w)" by simp
  let ?w = "mx_addNode w n"
  let ?len = "length (mx_nodes w)"
  from None have nodes: "mx_nodes ?w = mx_nodes w @ [n]"
    and im: "nodeIndexMap ?w = (nodeIndexMap w)(n \<mapsto> ?len)"
    and mat: "matrix ?w = map (\<lambda>row. row @ [0]) (matrix w) @ [replicate (?len + 1) 0]"
    by (simp_all add: mx_addNode_def Let_def)
  have 1: "distinct (mx_nodes ?w)" using mx_okD(1) [OF assms] nin nodes by simp
  have 2: "nodeIndexMap ?w x = Some i \<longleftrightarrow> i < length (mx_nodes ?w) \<and> mx_nodes ?w ! i = x" for x i
  proof (cases "x = n")
    case True
    show ?thesis
    proof (cases "i < ?len")
      case True
      with nin have "mx_nodes w ! i \<noteq> n" by (metis nth_mem)
      with True \<open>x = n\<close> show ?thesis by (simp add: im nodes nth_append)
    next
      case False
      with \<open>x = n\<close> show ?thesis by (auto simp: im nodes nth_append)
    qed
  next
    case False
    with mx_okD(2) [OF assms, of x i] show ?thesis
      by (auto simp: im nodes nth_append)
  qed
  have 3: "length (matrix ?w) = length (mx_nodes ?w)"
    using mx_okD(3) [OF assms] by (simp add: mat nodes)
  have 4: "length (matrix ?w ! i) = length (mx_nodes ?w)" if "i < length (matrix ?w)" for i
  proof (cases "i < ?len")
    case True
    with mx_okD(3,4) [OF assms] show ?thesis by (simp add: mat nodes nth_append)
  next
    case False
    with that mx_okD(3) [OF assms] have "i = ?len" by (simp add: mat)
    with mx_okD(3) [OF assms] show ?thesis by (simp add: mat nodes nth_append)
  qed
  from 1 2 3 4 show ?thesis unfolding mx_ok_def by blast
qed

lemma mx_nodes_addNode: "mx_ok w \<Longrightarrow> mx_nodes (mx_addNode w n) = add_key (mx_nodes w) n"
  using mx_index_None [of w n]
  by (auto simp: mx_addNode_def add_key_def Let_def split: option.splits)

lemma mx_entry_addNode:
  assumes "mx_ok w" and "i < length (mx_nodes w)" and "j < length (mx_nodes w)"
  shows "mx_entry (mx_addNode w n) i j = mx_entry w i j"
proof (cases "nodeIndexMap w n")
  case (Some k)
  then show ?thesis by (simp add: mx_addNode_def)
next
  case None
  with assms mx_okD(3,4) [OF assms(1)] show ?thesis
    by (simp add: mx_addNode_def mx_entry_def Let_def nth_append)
qed

lemma mx_entry_addNode_new:
  assumes "mx_ok w" and "nodeIndexMap w n = None"
    and "i \<le> length (mx_nodes w)" and "j \<le> length (mx_nodes w)"
    and "i = length (mx_nodes w) \<or> j = length (mx_nodes w)"
  shows "mx_entry (mx_addNode w n) i j = 0"
proof (cases "i = length (mx_nodes w)")
  case True
  from assms(4) have "replicate (length (mx_nodes w) + 1) (0::nat) ! j = 0"
    by (intro nth_replicate) simp
  with True assms(2) mx_okD(3) [OF assms(1)] show ?thesis
    by (simp add: mx_addNode_def mx_entry_def Let_def nth_append del: replicate_Suc)
next
  case False
  with assms have i: "i < length (mx_nodes w)" and j: "j = length (mx_nodes w)" by auto
  with assms(2) mx_okD(3,4) [OF assms(1)] show ?thesis
    by (simp add: mx_addNode_def mx_entry_def Let_def nth_append)
qed

lemma mx_hasEdge_addNode:
  assumes "mx_ok w" shows "mx_hasEdge (mx_addNode w n) u v \<longleftrightarrow> mx_hasEdge w u v"
proof (cases "nodeIndexMap w n")
  case (Some k)
  then show ?thesis by (simp add: mx_addNode_def)
next
  case None
  let ?w = "mx_addNode w n"
  let ?len = "length (mx_nodes w)"
  from None have nodes: "mx_nodes ?w = mx_nodes w @ [n]" by (simp add: mx_addNode_def Let_def)
  note ok' = mx_ok_addNode [OF assms, of n]
  show ?thesis
  proof
    assume "mx_hasEdge ?w u v"
    then obtain i j where ij: "i < Suc ?len" "j < Suc ?len" "mx_nodes ?w ! i = u" "mx_nodes ?w ! j = v"
      "mx_entry ?w i j = 1"
      unfolding mx_hasEdge_entry [OF ok'] by (auto simp: nodes)
    have "i < ?len \<and> j < ?len"
    proof (rule ccontr)
      assume "\<not> (i < ?len \<and> j < ?len)"
      with ij(1,2) have "i = ?len \<or> j = ?len" "i \<le> ?len" "j \<le> ?len" by auto
      from mx_entry_addNode_new [OF assms None this(2,3,1)] ij(5) show False by simp
    qed
    with ij mx_entry_addNode [OF assms, of i j n] show "mx_hasEdge w u v"
      unfolding mx_hasEdge_entry [OF assms] by (auto simp: nodes nth_append)
  next
    assume "mx_hasEdge w u v"
    then obtain i j where ij: "i < ?len" "j < ?len" "mx_nodes w ! i = u" "mx_nodes w ! j = v"
      "mx_entry w i j = 1"
      unfolding mx_hasEdge_entry [OF assms] by auto
    with mx_entry_addNode [OF assms ij(1,2), of n]
    have "i < length (mx_nodes ?w) \<and> j < length (mx_nodes ?w)
          \<and> mx_nodes ?w ! i = u \<and> mx_nodes ?w ! j = v \<and> mx_entry ?w i j = 1"
      by (simp add: nodes nth_append)
    then show "mx_hasEdge ?w u v"
      unfolding mx_hasEdge_entry [OF ok'] by blast
  qed
qed

lemma mx_write_nth:
  assumes "i < length mat" and "j < length (mat ! i)"
  shows "mx_write mat i j x ! i' ! j' = (if i' = i \<and> j' = j then x else mat ! i' ! j')"
proof (cases "i' = i")
  case True
  with assms show ?thesis by (simp add: mx_write_def nth_list_update)
next
  case False
  then show ?thesis by (simp add: mx_write_def)
qed

lemma mx_write_length: "length (mx_write mat i j x) = length mat"
  by (simp add: mx_write_def)

lemma mx_write_row_length: "length (mx_write mat i j x ! k) = length (mat ! k)"
  by (cases "k = i"; cases "i < length mat") (simp_all add: mx_write_def list_update_beyond)

lemma mx_ok_write:
  assumes "mx_ok w" shows "mx_ok (w\<lparr>matrix := mx_write (matrix w) i j x\<rparr>)"
  using assms unfolding mx_ok_def by (simp add: mx_write_length mx_write_row_length)

lemma mx_hasEdge_write:
  assumes ok: "mx_ok w" and a: "nodeIndexMap w a = Some i" and b: "nodeIndexMap w b = Some j"
  shows "mx_hasEdge (w\<lparr>matrix := mx_write (matrix w) i j x\<rparr>) u v \<longleftrightarrow>
         (if u = a \<and> v = b then x = 1 else mx_hasEdge w u v)"
proof -
  from a mx_okD(2) [OF ok, of a i] have i: "i < length (mx_nodes w)" "mx_nodes w ! i = a" by auto
  from b mx_okD(2) [OF ok, of b j] have j: "j < length (mx_nodes w)" "mx_nodes w ! j = b" by auto
  from i(1) mx_okD(3) [OF ok] have il: "i < length (matrix w)" by simp
  from j(1) mx_okD(4) [OF ok i(1)] have jl: "j < length (matrix w ! i)" by simp
  note wr = mx_write_nth [OF il jl]
  show ?thesis
  proof (cases "nodeIndexMap w u")
    case None
    then show ?thesis using a by (auto simp: mx_hasEdge_def)
  next
    case iu: (Some i')
    show ?thesis
    proof (cases "nodeIndexMap w v")
      case None
      then show ?thesis using b iu by (auto simp: mx_hasEdge_def)
    next
      case jv: (Some j')
      from iu mx_okD(2) [OF ok, of u i'] have i': "i' < length (mx_nodes w)" "mx_nodes w ! i' = u" by auto
      from jv mx_okD(2) [OF ok, of v j'] have j': "j' < length (mx_nodes w)" "mx_nodes w ! j' = v" by auto
      have "i' = i \<longleftrightarrow> u = a"
        using i i' mx_okD(1) [OF ok] by (auto simp: nth_eq_iff_index_eq)
      moreover have "j' = j \<longleftrightarrow> v = b"
        using j j' mx_okD(1) [OF ok] by (auto simp: nth_eq_iff_index_eq)
      ultimately show ?thesis using iu jv by (simp add: mx_hasEdge_def wr)
    qed
  qed
qed

lemma mx_ok_removeEdge: "mx_ok w \<Longrightarrow> mx_ok (mx_removeEdge w a b)"
  by (auto simp: mx_removeEdge_def mx_ok_write split: option.splits)

lemma mx_nodes_removeEdge: "mx_nodes (mx_removeEdge w a b) = mx_nodes w"
  by (auto simp: mx_removeEdge_def split: option.splits)

lemma mx_hasEdge_removeEdge:
  assumes "mx_ok w"
  shows "mx_hasEdge (mx_removeEdge w a b) u v \<longleftrightarrow> mx_hasEdge w u v \<and> \<not> (u = a \<and> v = b)"
proof (cases "nodeIndexMap w a")
  case None
  then show ?thesis by (auto simp: mx_removeEdge_def mx_hasEdge_def)
next
  case ia: (Some i)
  show ?thesis
  proof (cases "nodeIndexMap w b")
    case None
    then show ?thesis using ia by (auto simp: mx_removeEdge_def mx_hasEdge_def split: option.splits)
  next
    case jb: (Some j)
    from mx_hasEdge_write [OF assms ia jb, of 0 u v] ia jb show ?thesis
      by (simp add: mx_removeEdge_def)
  qed
qed

lemma mx_addEdge_unfold:
  assumes "mx_ok w"
  shows "\<exists>i j. nodeIndexMap (mx_addNode (mx_addNode w a) b) a = Some i
           \<and> nodeIndexMap (mx_addNode (mx_addNode w a) b) b = Some j
           \<and> mx_addEdge w a b
               = (mx_addNode (mx_addNode w a) b)
                   \<lparr>matrix := mx_write (matrix (mx_addNode (mx_addNode w a) b)) i j 1\<rparr>"
proof -
  let ?W = "mx_addNode (mx_addNode w a) b"
  let ?w1 = "if nodeIndexMap w a = None then mx_addNode w a else w"
  have w1: "?w1 = mx_addNode w a" by (auto simp: mx_addNode_def)
  let ?w2 = "if nodeIndexMap ?w1 b = None then mx_addNode ?w1 b else ?w1"
  have w2: "?w2 = ?W" unfolding w1 by (auto simp: mx_addNode_def)
  note ok1 = mx_ok_addNode [OF assms(1), of a]
  note ok2 = mx_ok_addNode [OF ok1, of b]
  have "a \<in> set (mx_nodes (mx_addNode w a))"
    using mx_nodes_addNode [OF assms(1), of a] by (simp add: add_key_def)
  then have "a \<in> set (mx_nodes ?W)"
    using mx_nodes_addNode [OF ok1, of b] by (simp add: add_key_def)
  with mx_index_None [OF ok2, of a] obtain i where i: "nodeIndexMap ?W a = Some i"
    by auto
  have "b \<in> set (mx_nodes ?W)"
    using mx_nodes_addNode [OF ok1, of b] by (simp add: add_key_def)
  with mx_index_None [OF ok2, of b] obtain j where j: "nodeIndexMap ?W b = Some j"
    by auto
  have "mx_addEdge w a b = (case (nodeIndexMap ?w2 a, nodeIndexMap ?w2 b) of
            (Some fromIndex, Some toIndex) \<Rightarrow> ?w2\<lparr>matrix := mx_write (matrix ?w2) fromIndex toIndex 1\<rparr>
          | _ \<Rightarrow> ?w2)"
    by (simp add: mx_addEdge_def Let_def)
  with i j show ?thesis unfolding w2 by simp
qed

lemma mx_ok_addEdge:
  assumes "mx_ok w" shows "mx_ok (mx_addEdge w a b)"
proof -
  have "mx_ok (mx_addNode (mx_addNode w a) b)"
    by (intro mx_ok_addNode assms)
  with mx_addEdge_unfold [OF assms, of a b] show ?thesis
    by (auto simp: mx_ok_write)
qed

lemma mx_nodes_addEdge:
  assumes "mx_ok w"
  shows "mx_nodes (mx_addEdge w a b) = add_key (add_key (mx_nodes w) a) b"
proof -
  have "mx_nodes (mx_addNode (mx_addNode w a) b) = add_key (add_key (mx_nodes w) a) b"
    by (simp add: mx_nodes_addNode mx_ok_addNode assms)
  with mx_addEdge_unfold [OF assms, of a b] show ?thesis by auto
qed

lemma mx_hasEdge_addEdge:
  assumes "mx_ok w"
  shows "mx_hasEdge (mx_addEdge w a b) u v \<longleftrightarrow> mx_hasEdge w u v \<or> (u = a \<and> v = b)"
proof -
  let ?w2 = "mx_addNode (mx_addNode w a) b"
  note ok1 = mx_ok_addNode [OF assms, of a]
  note ok2 = mx_ok_addNode [OF ok1, of b]
  from mx_addEdge_unfold [OF assms, of a b] obtain i j where
    ij: "nodeIndexMap ?w2 a = Some i" "nodeIndexMap ?w2 b = Some j"
    "mx_addEdge w a b = ?w2\<lparr>matrix := mx_write (matrix ?w2) i j 1\<rparr>" by blast
  have "mx_hasEdge ?w2 u v \<longleftrightarrow> mx_hasEdge w u v"
    by (simp add: mx_hasEdge_addNode [OF ok1] mx_hasEdge_addNode [OF assms])
  with mx_hasEdge_write [OF ok2 ij(1,2), of 1 u v] ij(3) show ?thesis by auto
qed

lemma fold_index_map:
  "distinct ns \<Longrightarrow>
   fold (\<lambda>(node, index) im. im(node \<mapsto> index)) (zip ns [k..<k + length ns]) m n
   = (if n \<in> set ns then Some (k + (THE i. i < length ns \<and> ns ! i = n)) else m n)"
proof (induction ns arbitrary: k m)
  case Nil
  then show ?case by simp
next
  case (Cons x xs)
  have up: "[k..<k + length (x # xs)] = k # [Suc k..<Suc k + length xs]"
    by (subst upt_rec) simp
  from Cons.prems have d: "distinct xs" and nx: "x \<notin> set xs" by simp_all
  show ?case
  proof (cases "n = x")
    case True
    have "(THE i. i < length (x # xs) \<and> (x # xs) ! i = x) = 0"
    proof (rule the_equality)
      show "0 < length (x # xs) \<and> (x # xs) ! 0 = x" by simp
    next
      fix i assume "i < length (x # xs) \<and> (x # xs) ! i = x"
      with nx show "i = 0" by (cases i) auto
    qed
    with True nx Cons.IH [OF d, of "Suc k" "m(x \<mapsto> k)"] show ?thesis
      unfolding up by simp
  next
    case False
    show ?thesis
    proof (cases "n \<in> set xs")
      case nin: False
      with False Cons.IH [OF d, of "Suc k" "m(x \<mapsto> k)"] show ?thesis unfolding up by simp
    next
      case True
      then obtain j where j: "j < length xs" "xs ! j = n" by (auto simp: in_set_conv_nth)
      have t1: "(THE i. i < length xs \<and> xs ! i = n) = j"
      proof (rule the_equality)
        from j show "j < length xs \<and> xs ! j = n" by simp
      next
        fix i assume "i < length xs \<and> xs ! i = n"
        with j d show "i = j" by (auto simp: distinct_conv_nth)
      qed
      have t2: "(THE i. i < length (x # xs) \<and> (x # xs) ! i = n) = Suc j"
      proof (rule the_equality)
        from j show "Suc j < length (x # xs) \<and> (x # xs) ! Suc j = n" by simp
      next
        fix i assume a: "i < length (x # xs) \<and> (x # xs) ! i = n"
        with False obtain i' where "i = Suc i'" by (cases i) auto
        with a j d show "i = Suc j" by (auto simp: distinct_conv_nth)
      qed
      from True False Cons.IH [OF d, of "Suc k" "m(x \<mapsto> k)"] t1 t2 show ?thesis
        unfolding up by simp
    qed
  qed
qed

lemma mx_ok_initialize:
  assumes "distinct (mx_nodes w)" and "\<forall>n. n \<notin> set (mx_nodes w) \<longrightarrow> nodeIndexMap w n = None"
  shows "mx_ok (initializeMatrix w)"
proof -
  let ?ns = "mx_nodes w"
  let ?w = "initializeMatrix w"
  have nodes: "mx_nodes ?w = ?ns" by (simp add: initializeMatrix_def Let_def)
  have im: "nodeIndexMap ?w n = (if n \<in> set ?ns then Some (THE i. i < length ?ns \<and> ?ns ! i = n) else nodeIndexMap w n)" for n
    using fold_index_map [OF assms(1), of 0 "nodeIndexMap w" n]
    by (simp add: initializeMatrix_def Let_def)
  have 2: "nodeIndexMap ?w n = Some i \<longleftrightarrow> i < length ?ns \<and> ?ns ! i = n" for n i
  proof (cases "n \<in> set ?ns")
    case False
    with assms(2) im [of n] show ?thesis by auto
  next
    case True
    then obtain j where j: "j < length ?ns" "?ns ! j = n" by (auto simp: in_set_conv_nth)
    have "(THE i. i < length ?ns \<and> ?ns ! i = n) = j"
    proof (rule the_equality)
      from j show "j < length ?ns \<and> ?ns ! j = n" by simp
    next
      fix i assume "i < length ?ns \<and> ?ns ! i = n"
      with j assms(1) show "i = j" by (auto simp: distinct_conv_nth)
    qed
    with True im [of n] have "nodeIndexMap ?w n = Some j" by simp
    with j assms(1) show ?thesis by (auto simp: distinct_conv_nth)
  qed
  have 3: "length (matrix ?w) = length ?ns" by (simp add: initializeMatrix_def Let_def)
  have 4: "\<forall>i < length (matrix ?w). length (matrix ?w ! i) = length ?ns"
    by (simp add: initializeMatrix_def Let_def)
  from assms(1) 2 3 4 show ?thesis unfolding mx_ok_def nodes by blast
qed

lemma mx_ok_new: "distinct ns \<Longrightarrow> mx_ok (mx_new ns)"
  unfolding mx_new_def by (rule mx_ok_initialize) simp_all

lemma mx_ok_clear: "mx_ok w \<Longrightarrow> mx_ok (mx_clear w)"
  unfolding mx_clear_def
  by (rule mx_ok_initialize) (auto simp: mx_okD(1) mx_index_None)

fun wfg_ok :: "'a wfg \<Rightarrow> bool" where
  "wfg_ok (AdjacencyListWFG g) = True"
| "wfg_ok (AdjacencyMatrixWFG w) = mx_ok w"
| "wfg_ok (HashMapSetsWFG g) = True"

lemma set_add_set: "set (set_add s x) = insert x (set s)"
  by (auto simp: set_add_def)

lemma set_delete_set: "set (set_delete s x) = set s - {x}"
  by (auto simp: set_delete_def)

lemma wfg_ok_addEdge: "wfg_ok w \<Longrightarrow> wfg_ok (addEdge w a b)"
  by (cases w) (simp_all add: mx_ok_addEdge)

lemma wfg_ok_removeEdge: "wfg_ok w \<Longrightarrow> wfg_ok (removeEdge w a b)"
  by (cases w) (simp_all add: mx_ok_removeEdge)

lemma hasEdge_addEdge:
  "wfg_ok w \<Longrightarrow> hasEdge (addEdge w a b) u v \<longleftrightarrow> hasEdge w u v \<or> (u = a \<and> v = b)"
  by (cases w)
     (auto simp: hm_addEdge_eq hm_hasEdge_eq al_hasEdge_iff al_getNeighbors_addEdge set_add_set
                 mx_hasEdge_addEdge)

lemma hasEdge_removeEdge:
  "wfg_ok w \<Longrightarrow> hasEdge (removeEdge w a b) u v \<longleftrightarrow> hasEdge w u v \<and> \<not> (u = a \<and> v = b)"
  by (cases w)
     (auto simp: hm_removeEdge_eq hm_hasEdge_eq al_hasEdge_iff al_getNeighbors_removeEdge
                 set_delete_set mx_hasEdge_removeEdge)

lemma getNeighbors_iff: "wfg_ok w \<Longrightarrow> v \<in> set (getNeighbors w u) \<longleftrightarrow> hasEdge w u v"
  by (cases w) (simp_all add: al_hasEdge_iff hm_hasEdge_eq hm_getNeighbors_eq mx_getNeighbors_iff)

lemma hasEdge_node: "wfg_ok w \<Longrightarrow> hasEdge w u v \<Longrightarrow> u \<in> set (getNodes w)"
  by (cases w)
     (auto simp: al_hasEdge_iff hm_hasEdge_eq hm_getNodes_eq mx_getNodes_def
           dest: al_neighbors_node mx_hasEdge_node)

lemma getNodes_removeEdge: "getNodes (removeEdge w a b) = getNodes w"
  by (cases w)
     (simp_all add: al_getNodes_removeEdge hm_removeEdge_eq hm_getNodes_eq mx_getNodes_def
                    mx_nodes_removeEdge)

lemma getNodes_addEdge:
  "wfg_ok w \<Longrightarrow> getNodes (addEdge w a b) = add_key (add_key (getNodes w) a) b"
  by (cases w)
     (simp_all add: al_getNodes_addEdge hm_addEdge_eq hm_getNodes_eq mx_getNodes_def
                    mx_nodes_addEdge)

lemma mx_getNeighbors_filter:
  assumes "mx_ok w"
  shows "mx_getNeighbors w u = filter (\<lambda>v. mx_hasEdge w u v) (mx_nodes w)"
proof (cases "nodeIndexMap w u")
  case None
  then show ?thesis by (simp add: mx_getNeighbors_def mx_hasEdge_def)
next
  case (Some i)
  with mx_okD(2) [OF assms, of u i] have i: "i < length (mx_nodes w)" "mx_nodes w ! i = u" by auto
  from mx_okD(4) [OF assms i(1)] have len: "length (matrix w ! i) = length (mx_nodes w)" .
  have p: "mx_hasEdge w u (mx_nodes w ! j) \<longleftrightarrow> matrix w ! i ! j = 1" if "j < length (mx_nodes w)" for j
  proof -
    from that mx_okD(2) [OF assms, of "mx_nodes w ! j" j] have "nodeIndexMap w (mx_nodes w ! j) = Some j"
      by simp
    with Some show ?thesis by (simp add: mx_hasEdge_def)
  qed
  have "filter (\<lambda>v. mx_hasEdge w u v) (mx_nodes w)
        = filter (\<lambda>v. mx_hasEdge w u v) (map (\<lambda>j. mx_nodes w ! j) [0..<length (mx_nodes w)])"
    by (simp add: map_nth)
  also have "\<dots> = map (\<lambda>j. mx_nodes w ! j)
                    (filter (\<lambda>j. mx_hasEdge w u (mx_nodes w ! j)) [0..<length (mx_nodes w)])"
    by (simp add: filter_map comp_def)
  also have "filter (\<lambda>j. mx_hasEdge w u (mx_nodes w ! j)) [0..<length (mx_nodes w)]
             = filter (\<lambda>j. matrix w ! i ! j = 1) [0..<length (mx_nodes w)]"
    by (rule filter_cong) (auto simp: p)
  finally show ?thesis using Some len by (simp add: mx_getNeighbors_def)
qed

lemma run_ops_snoc: "run_ops ty nodes (ops @ [op]) = apply_op (run_ops ty nodes ops) op"
  by (simp add: run_ops_def)

lemma mx_initialize_no_edge:
  assumes "mx_ok (initializeMatrix w)"
  shows "\<not> mx_hasEdge (initializeMatrix w) u v"
proof
  assume "mx_hasEdge (initializeMatrix w) u v"
  with mx_hasEdge_entry [OF assms, of u v] obtain i j where
    ij: "i < length (mx_nodes (initializeMatrix w))" "j < length (mx_nodes (initializeMatrix w))"
    and e: "mx_entry (initializeMatrix w) i j = 1" by blast
  from ij have "i < length (mx_nodes w)" "j < length (mx_nodes w)"
    by (simp_all add: initializeMatrix_def Let_def)
  then have "mx_entry (initializeMatrix w) i j = 0"
    by (simp add: mx_entry_def initializeMatrix_def Let_def)
  with e show False by simp
qed

lemma run_ops_related:
  assumes "distinct nodes"
  shows "\<exists>g w. run_ops adjacencyList nodes ops = AdjacencyListWFG g
      \<and> run_ops hashMapSets nodes ops = HashMapSetsWFG g
      \<and> run_ops adjacencyMatrix nodes ops = AdjacencyMatrixWFG w
      \<and> mx_ok w \<and> (\<forall>u v. mx_hasEdge w u v \<longleftrightarrow> al_hasEdge g u v)
      \<and> (Clear \<notin> set ops \<longrightarrow> nodes = [] \<longrightarrow> mx_nodes w = al_getNodes g)"
proof (induction ops rule: rev_induct)
  case Nil
  from assms have ok: "mx_ok (mx_new nodes)" by (rule mx_ok_new)
  then have "\<not> mx_hasEdge (mx_new nodes) u v" for u v
    unfolding mx_new_def by (rule mx_initialize_no_edge)
  moreover have "\<not> al_hasEdge ([] :: 'a adjacency_list) u v" for u v :: 'a
    by (simp add: al_hasEdge_def dict_get_def)
  moreover have "mx_nodes (mx_new ([] :: 'a list)) = al_getNodes ([] :: 'a adjacency_list)"
    by (simp add: al_getNodes_def dict_keys_def mx_new_def initializeMatrix_def)
  ultimately show ?case using ok by (simp add: run_ops_def al_new_def hm_new_def)
next
  case (snoc op ops)
  then obtain g w where g: "run_ops adjacencyList nodes ops = AdjacencyListWFG g"
    "run_ops hashMapSets nodes ops = HashMapSetsWFG g"
    "run_ops adjacencyMatrix nodes ops = AdjacencyMatrixWFG w"
    and ok: "mx_ok w" and e: "\<And>u v. mx_hasEdge w u v \<longleftrightarrow> al_hasEdge g u v"
    and n: "Clear \<notin> set ops \<longrightarrow> nodes = [] \<longrightarrow> mx_nodes w = al_getNodes g"
    by blast
  show ?case
  proof (cases op)
    case (AddEdge a b)
    have "mx_hasEdge (mx_addEdge w a b) u v \<longleftrightarrow> al_hasEdge (al_addEdge g a b) u v" for u v
      using e by (auto simp: mx_hasEdge_addEdge [OF ok] al_hasEdge_iff al_getNeighbors_addEdge set_add_set)
    moreover have "mx_nodes w = al_getNodes g
                   \<Longrightarrow> mx_nodes (mx_addEdge w a b) = al_getNodes (al_addEdge g a b)"
      by (simp add: mx_nodes_addEdge [OF ok] al_getNodes_addEdge)
    ultimately show ?thesis using g n AddEdge mx_ok_addEdge [OF ok, of a b]
      by (simp add: run_ops_snoc hm_addEdge_eq)
  next
    case (RemoveEdge a b)
    have "mx_hasEdge (mx_removeEdge w a b) u v \<longleftrightarrow> al_hasEdge (al_removeEdge g a b) u v" for u v
      using e by (auto simp: mx_hasEdge_removeEdge [OF ok] al_hasEdge_iff al_getNeighbors_removeEdge
                             set_delete_set)
    moreover have "mx_nodes w = al_getNodes g
                   \<Longrightarrow> mx_nodes (mx_removeEdge w a b) = al_getNodes (al_removeEdge g a b)"
      by (simp add: mx_nodes_removeEdge al_getNodes_removeEdge)
    ultimately show ?thesis using g n RemoveEdge mx_ok_removeEdge [OF ok, of a b]
      by (simp add: run_ops_snoc hm_removeEdge_eq)
  next
    case Clear
    from ok have okc: "mx_ok (mx_clear w)" by (rule mx_ok_clear)
    then have "\<not> mx_hasEdge (mx_clear w) u v" for u v
      unfolding mx_clear_def by (rule mx_initialize_no_edge)
    moreover have "\<not> al_hasEdge ([] :: 'a adjacency_list) u v" for u v :: 'a
      by (simp add: al_hasEdge_def dict_get_def)
    ultimately show ?thesis using g Clear okc
      by (simp add: run_ops_snoc al_clear_def hm_clear_def)
  qed
qed

text \<open>
  Claim C3 (differential equivalence), as stated: identical \<open>getNodes()\<close> and identical
  \<open>getNeighbors()\<close> sequences for every sequence of operations.  It fails in three ways.
  The matrix lists neighbours by node index, the other two by insertion; \<open>clear()\<close>
  empties the list and the map but keeps the nodes of the matrix; and the matrix alone takes
  the nodes handed to \<open>createWFG\<close>.
\<close>

theorem representations_differ:
  "getNeighbors (run_ops adjacencyList [] order_ops) ''T1'' = [''T3'', ''T2'']
   \<and> getNeighbors (run_ops hashMapSets [] order_ops) ''T1'' = [''T3'', ''T2'']
   \<and> getNeighbors (run_ops adjacencyMatrix [] order_ops) ''T1'' = [''T2'', ''T3'']
   \<and> getNodes (run_ops adjacencyList [] clear_ops) = []
   \<and> getNodes (run_ops adjacencyMatrix [] clear_ops) = [''T1'', ''T2'']
   \<and> getNodes (run_ops adjacencyList [''T1'', ''T2''] []) = []
   \<and> getNodes (run_ops adjacencyMatrix [''T1'', ''T2''] []) = [''T1'', ''T2'']"
  by code_simp

text \<open>
  Claim C3, amended.  The ids are plain: not made of digits only and not a name found on
  \<open>Object.prototype\<close>; the nodes handed to \<open>createWFG\<close> are distinct.  After any sequence of
  \<open>addEdge\<close>, \<open>removeEdge\<close> and \<open>clear\<close>, the adjacency list and the map of sets report the
  same \<open>getNodes()\<close> and the same \<open>getNeighbors()\<close> sequences, and the matrix reports, for
  every node, the same set of neighbours.  When no nodes were handed to \<open>createWFG\<close> and the
  sequence has no \<open>clear\<close>, the matrix also reports the same \<open>getNodes()\<close> sequence, and its
  neighbours are those of the list in node order instead of insertion order.
\<close>

theorem representations_agree:
  assumes "\<forall>op\<in>set ops. \<forall>x\<in>set (op_ids op). plain_id x" and "plain_id node"
    and "distinct nodes" and "\<forall>x\<in>set nodes. plain_id x"
  shows "getNodes (run_ops hashMapSets nodes ops) = getNodes (run_ops adjacencyList nodes ops)
   \<and> getNeighbors (run_ops hashMapSets nodes ops) node
       = getNeighbors (run_ops adjacencyList nodes ops) node
   \<and> set (getNeighbors (run_ops adjacencyMatrix nodes ops) node)
       = set (getNeighbors (run_ops adjacencyList nodes ops) node)
   \<and> (Clear \<notin> set ops \<longrightarrow> nodes = [] \<longrightarrow>
        getNodes (run_ops adjacencyMatrix nodes ops) = getNodes (run_ops adjacencyList nodes ops)
        \<and> getNeighbors (run_ops adjacencyMatrix nodes ops) node
            = filter (\<lambda>v. v \<in> set (getNeighbors (run_ops adjacencyList nodes ops) node))
                     (getNodes (run_ops adjacencyList nodes ops)))"
proof -
  from run_ops_related [OF assms(3), of ops] obtain g w where
    g: "run_ops adjacencyList nodes ops = AdjacencyListWFG g"
    "run_ops hashMapSets nodes ops = HashMapSetsWFG g"
    "run_ops adjacencyMatrix nodes ops = AdjacencyMatrixWFG w"
    and ok: "mx_ok w" and e0: "\<And>u v. mx_hasEdge w u v \<longleftrightarrow> al_hasEdge g u v"
    and n: "Clear \<notin> set ops \<longrightarrow> nodes = [] \<longrightarrow> mx_nodes w = al_getNodes g"
    by blast
  from e0 have e: "\<And>u v. mx_hasEdge w u v \<longleftrightarrow> v \<in> set (al_getNeighbors g u)"
    by (simp add: al_hasEdge_iff)
  have 1: "getNodes (run_ops hashMapSets nodes ops) = getNodes (run_ops adjacencyList nodes ops)"
    and 2: "getNeighbors (run_ops hashMapSets nodes ops) node
            = getNeighbors (run_ops adjacencyList nodes ops) node"
    using g by (simp_all add: hm_getNodes_eq hm_getNeighbors_eq)
  have "set (mx_getNeighbors w node) = set (al_getNeighbors g node)"
    using mx_getNeighbors_iff [OF ok, of _ node] e by auto
  with g have 3: "set (getNeighbors (run_ops adjacencyMatrix nodes ops) node)
       = set (getNeighbors (run_ops adjacencyList nodes ops) node)" by simp
  have 4: "getNodes (run_ops adjacencyMatrix nodes ops) = getNodes (run_ops adjacencyList nodes ops)
        \<and> getNeighbors (run_ops adjacencyMatrix nodes ops) node
            = filter (\<lambda>v. v \<in> set (getNeighbors (run_ops adjacencyList nodes ops) node))
                     (getNodes (run_ops adjacencyList nodes ops))"
    if "Clear \<notin> set ops" and "nodes = []"
  proof -
    from n that have nn: "mx_nodes w = al_getNodes g" by blast
    have "mx_getNeighbors w node = filter (\<lambda>v. v \<in> set (al_getNeighbors g node)) (al_getNodes g)"
      by (simp add: mx_getNeighbors_filter [OF ok] e nn)
    then show ?thesis using g nn by (simp add: mx_getNodes_def)
  qed
  from 1 2 3 4 show ?thesis by blast
qed

theorem representations_agree_witness:
  "getNodes (run_ops adjacencyMatrix [] order_ops) = [''T2'', ''T3'', ''T1'']
   \<and> getNodes (run_ops adjacencyList [] order_ops) = [''T2'', ''T3'', ''T1'']
   \<and> set (getNeighbors (run_ops adjacencyMatrix [] order_ops) ''T1'')
       = set (getNeighbors (run_ops adjacencyList [] order_ops) ''T1'')
   \<and> set (getNeighbors (run_ops adjacencyMatrix [''T4'', ''T1''] reuse_ops) ''T1'')
       = set (getNeighbors (run_ops adjacencyList [''T4'', ''T1''] reuse_ops) ''T1'')
   \<and> getNeighbors (run_ops adjacencyList [''T4'', ''T1''] reuse_ops) ''T1'' = [''T2'', ''T4'']"
proof -
  have c: "Clear \<notin> set order_ops" by (simp add: order_ops_def)
  have p: "\<forall>op\<in>set order_ops. \<forall>x\<in>set (op_ids op). plain_id x" by code_simp
  have p': "\<forall>op\<in>set reuse_ops. \<forall>x\<in>set (op_ids op). plain_id x" by code_simp
  have q: "plain_id ''T1''" by code_simp
  have q': "\<forall>x\<in>set [''T4'', ''T1'']. plain_id x" by code_simp
  have n: "getNodes (run_ops adjacencyList [] order_ops) = [''T2'', ''T3'', ''T1'']" by code_simp
  have m: "getNeighbors (run_ops adjacencyList [''T4'', ''T1''] reuse_ops) ''T1'' = [''T2'', ''T4'']"
    by code_simp
  have d: "distinct ([] :: string list)" "distinct [''T4'', ''T1'']" "\<forall>x\<in>set ([] :: string list). plain_id x"
    by simp_all
  note r = representations_agree [OF p q d(1) d(3)]
  from r c have "getNodes (run_ops adjacencyMatrix [] order_ops)
                 = getNodes (run_ops adjacencyList [] order_ops)" by blast
  moreover from r have "set (getNeighbors (run_ops adjacencyMatrix [] order_ops) ''T1'')
       = set (getNeighbors (run_ops adjacencyList [] order_ops) ''T1'')" by blast
  moreover from representations_agree [OF p' q d(2) q']
  have "set (getNeighbors (run_ops adjacencyMatrix [''T4'', ''T1''] reuse_ops) ''T1'')
       = set (getNeighbors (run_ops adjacencyList [''T4'', ''T1''] reuse_ops) ''T1'')" by blast
  ultimately show ?thesis using n m by metis
qed

subsection \<open>Cycles reported by detectDeadlock\<close>

text \<open>
  Every node of a reported cycle, genuine or not, has an edge: the nodes of the path have a
  successor and the target of the back edge has a predecessor.  The graph read through
  \<open>graph_of\<close> has the edges of the graph object.
\<close>

lemma slice_from_subset: "set (slice_from path neighbor) \<subseteq> set path"
  by (auto simp: slice_from_def dest: set_dropWhileD in_set_dropD)

lemma dd_loop_cycles_touched:
  "path = pre @ [node] \<Longrightarrow> set pre \<subseteq> Domain (edges g) \<Longrightarrow> set nbs \<subseteq> set (vNeighbors g node)
   \<Longrightarrow> \<forall>c\<in>set (dd_cycles st). set c \<subseteq> Field (edges g)
   \<Longrightarrow> \<forall>c\<in>set (dd_cycles (snd (dd_loop g node path nbs st))). set c \<subseteq> Field (edges g)"
proof (induction g node path nbs st arbitrary: pre rule: dd_loop.induct)
  case (1 g node path st)
  then show ?case by simp
next
  case (2 g node path neighbor rest st)
  from "2.prems"(3) have nb: "neighbor \<in> set (vNeighbors g node)"
    and rest: "set rest \<subseteq> set (vNeighbors g node)" by auto
  from nb have e: "(node, neighbor) \<in> edges g" by (simp add: edges_def)
  then have nd: "node \<in> Domain (edges g)" and nr: "neighbor \<in> Range (edges g)" by auto
  show ?case
  proof (cases "neighbor \<in> dd_visited st")
    case False
    obtain r2 st2 where call: "dd_loop g neighbor (path @ [neighbor]) (vNeighbors g neighbor) (dd_mark neighbor st) = (r2, st2)"
      by (cases "dd_loop g neighbor (path @ [neighbor]) (vNeighbors g neighbor) (dd_mark neighbor st)")
    have pre': "set (pre @ [node]) \<subseteq> Domain (edges g)" using "2.prems"(2) nd by simp
    have c0: "\<forall>c\<in>set (dd_cycles (dd_mark neighbor st)). set c \<subseteq> Field (edges g)"
      using "2.prems"(4) by (simp add: dd_mark_def)
    have "\<forall>c\<in>set (dd_cycles (snd (dd_loop g neighbor (path @ [neighbor]) (vNeighbors g neighbor) (dd_mark neighbor st)))).
            set c \<subseteq> Field (edges g)"
      by (rule "2.IH"(1) [OF False _ pre' _ c0]) (simp_all add: "2.prems"(1))
    with call have c2: "\<forall>c\<in>set (dd_cycles st2). set c \<subseteq> Field (edges g)" by simp
    show ?thesis
    proof (cases r2)
      case True
      with call False c2 show ?thesis by simp
    next
      case r2: False
      have "\<forall>c\<in>set (dd_cycles (snd (dd_loop g node path rest st2))). set c \<subseteq> Field (edges g)"
        by (rule "2.IH"(2) [OF False call [symmetric] _ "2.prems"(1,2) rest c2]) (simp add: r2)
      with call False r2 show ?thesis by simp
    qed
  next
    case True
    note vis = this
    show ?thesis
    proof (cases "neighbor \<in> dd_recStack st")
      case True
      have "set (slice_from path neighbor @ [neighbor]) \<subseteq> Field (edges g)"
        using slice_from_subset [of path neighbor] "2.prems"(1,2) nd nr
        by (auto simp: Field_def)
      with vis True "2.prems"(4) show ?thesis
        by (auto simp: dd_record_def Let_def)
    next
      case False
      have "\<forall>c\<in>set (dd_cycles (snd (dd_loop g node path rest st))). set c \<subseteq> Field (edges g)"
        using vis False by (intro "2.IH"(3) [OF _ _ "2.prems"(1,2) rest "2.prems"(4)]) simp_all
      with vis False show ?thesis by simp
    qed
  qed
qed

lemma dd_outer_cycles_touched:
  "\<forall>c\<in>set (dd_cycles st). set c \<subseteq> Field (edges g)
   \<Longrightarrow> \<forall>c\<in>set (dd_cycles (dd_outer g ns st)). set c \<subseteq> Field (edges g)"
proof (induction ns arbitrary: st)
  case Nil
  then show ?case by simp
next
  case (Cons node rest)
  show ?case
  proof (cases "node \<in> dd_visited st")
    case True
    with Cons.IH [OF Cons.prems] show ?thesis by simp
  next
    case False
    have c0: "\<forall>c\<in>set (dd_cycles (dd_mark node st)). set c \<subseteq> Field (edges g)"
      using Cons.prems by (simp add: dd_mark_def)
    have "\<forall>c\<in>set (dd_cycles (snd (dd_loop g node ([] @ [node]) (vNeighbors g node) (dd_mark node st)))).
            set c \<subseteq> Field (edges g)"
      by (rule dd_loop_cycles_touched [OF refl _ _ c0]) simp_all
    then have "\<forall>c\<in>set (dd_cycles (snd (dd_dfs g node [] st))). set c \<subseteq> Field (edges g)"
      by (simp add: dd_dfs_def)
    from Cons.IH [OF this] False show ?thesis by simp
  qed
qed

lemma detectDeadlock_cycles_touched:
  "c \<in> set (cycles (detectDeadlock g)) \<Longrightarrow> set c \<subseteq> Field (edges g)"
  using dd_outer_cycles_touched [of "\<lparr>dd_visited = {}, dd_recStack = {}, dd_cycles = []\<rparr>" g "vNodes g"]
  by (simp add: detectDeadlock_def Let_def)

lemma map_of_graph_of:
  "map_of (map (\<lambda>node. (node, f node)) ns) n = (if n \<in> set ns then Some (f n) else None)"
  by (induction ns) auto

lemma vNeighbors_graph_of:
  "vNeighbors (graph_of w) n = (if n \<in> set (getNodes w) then getNeighbors w n else [])"
  by (simp add: vNeighbors_def graph_of_def map_of_graph_of)

lemma vNodes_graph_of: "vNodes (graph_of w) = getNodes w"
  by (simp add: vNodes_def graph_of_def comp_def)

lemma graph_of_faithful:
  assumes "wfg_ok w" shows "vNeighbors (graph_of w) n = getNeighbors w n"
proof (cases "n \<in> set (getNodes w)")
  case True
  then show ?thesis by (simp add: vNeighbors_graph_of)
next
  case False
  have "getNeighbors w n = []"
  proof (rule ccontr)
    assume "getNeighbors w n \<noteq> []"
    then obtain v where "v \<in> set (getNeighbors w n)" by (cases "getNeighbors w n") auto
    with assms have "hasEdge w n v" by (simp add: getNeighbors_iff)
    with assms False show False by (auto dest: hasEdge_node)
  qed
  with False show ?thesis by (simp add: vNeighbors_graph_of)
qed

lemma edges_graph_of:
  "wfg_ok w \<Longrightarrow> (u, v) \<in> edges (graph_of w) \<longleftrightarrow> hasEdge w u v"
  by (simp add: edges_def graph_of_faithful getNeighbors_iff)

subsection \<open>Aborting a transaction\<close>

lemma fold_removeEdge_out:
  "wfg_ok w \<Longrightarrow>
   wfg_ok (fold (\<lambda>neighbor w. removeEdge w a neighbor) nbs w)
   \<and> getNodes (fold (\<lambda>neighbor w. removeEdge w a neighbor) nbs w) = getNodes w
   \<and> (\<forall>u v. hasEdge (fold (\<lambda>neighbor w. removeEdge w a neighbor) nbs w) u v
             \<longleftrightarrow> hasEdge w u v \<and> \<not> (u = a \<and> v \<in> set nbs))"
proof (induction nbs arbitrary: w)
  case Nil
  then show ?case by simp
next
  case (Cons nb nbs)
  from Cons.prems have ok: "wfg_ok (removeEdge w a nb)" by (rule wfg_ok_removeEdge)
  from Cons.IH [OF ok] show ?case
    by (auto simp: hasEdge_removeEdge [OF Cons.prems] getNodes_removeEdge)
qed

lemma fold_removeEdge_in:
  "wfg_ok w \<Longrightarrow>
   wfg_ok (fold (\<lambda>node w. removeEdge w node b) ns w)
   \<and> getNodes (fold (\<lambda>node w. removeEdge w node b) ns w) = getNodes w
   \<and> (\<forall>u v. hasEdge (fold (\<lambda>node w. removeEdge w node b) ns w) u v
             \<longleftrightarrow> hasEdge w u v \<and> \<not> (v = b \<and> u \<in> set ns))"
proof (induction ns arbitrary: w)
  case Nil
  then show ?case by simp
next
  case (Cons n ns)
  from Cons.prems have ok: "wfg_ok (removeEdge w n b)" by (rule wfg_ok_removeEdge)
  from Cons.IH [OF ok] show ?case
    by (auto simp: hasEdge_removeEdge [OF Cons.prems] getNodes_removeEdge)
qed

lemma fold_addEdge_ok:
  "wfg_ok w \<Longrightarrow> wfg_ok (fold (\<lambda>waiterId w. addEdge w waiterId n) q w)"
  by (induction q arbitrary: w) (simp_all add: wfg_ok_addEdge)

lemma wfg_modify [simp]:
  "wfg (modify_tx t f m) = wfg m" "wfg (modify_res r h m) = wfg m" "wfg (updateMetrics m) = wfg m"
  by (simp_all add: modify_tx_def modify_res_def updateMetrics_def)

lemma resources_simps [simp]:
  "resources (modify_tx t f m) = resources m" "resources (removeWaitEdges m t) = resources m"
  by (simp_all add: modify_tx_def removeWaitEdges_def)

lemma wfg_ok_removeWaitEdges: "wfg_ok (wfg m) \<Longrightarrow> wfg_ok (wfg (removeWaitEdges m t))"
  using fold_removeEdge_out [of "wfg m" t "getNeighbors (wfg m) t"]
  by (simp add: removeWaitEdges_def)

lemma wfg_ok_promote: "wfg_ok (wfg m) \<Longrightarrow> wfg_ok (wfg (promote m r n))"
  by (auto simp: promote_def Let_def wfg_ok_removeWaitEdges fold_addEdge_ok split: option.splits)

lemma wfg_ok_releaseLock: "wfg_ok (wfg m) \<Longrightarrow> wfg_ok (wfg (snd (releaseLock m t r)))"
  by (auto simp: releaseLock_def Let_def removeWaitEdgesForResource_def wfg_ok_promote
           split: option.splits list.splits)

lemma wfg_ok_acquireLock: "wfg_ok (wfg m) \<Longrightarrow> wfg_ok (wfg (snd (acquireLock m t r)))"
  by (auto simp: acquireLock_def Let_def wfg_ok_removeWaitEdges wfg_ok_addEdge
           split: option.splits)

lemma wfg_ok_release_all:
  "wfg_ok (wfg m) \<Longrightarrow> wfg_ok (wfg (fold (\<lambda>resId s. snd (releaseLock s t resId)) rs m))"
  by (induction rs arbitrary: m) (simp_all add: wfg_ok_releaseLock)

lemma wfg_ok_new_manager:
  "distinct (map tx_id txs) \<Longrightarrow> wfg_ok (wfg (new_manager ty txs ress))"
  by (cases ty) (simp_all add: new_manager_def mx_ok_new)

definition after_release :: "manager \<Rightarrow> string \<Rightarrow> transaction \<Rightarrow> manager" where
  "after_release m txId tx =
     fold (\<lambda>resId s. snd (releaseLock s txId resId)) (heldLocks tx)
          (modify_tx txId (\<lambda>t. t\<lparr>status := Aborted\<rparr>) m)"

lemma abort_wfg:
  assumes "find_tx m txId = Some tx"
  shows "wfg (snd (abortTransaction m txId))
         = fold (\<lambda>neighbor w. removeEdge w txId neighbor)
             (getNeighbors (fold (\<lambda>node w. removeEdge w node txId)
                                 (getNodes (wfg (after_release m txId tx)))
                                 (wfg (after_release m txId tx))) txId)
             (fold (\<lambda>node w. removeEdge w node txId)
                   (getNodes (wfg (after_release m txId tx))) (wfg (after_release m txId tx)))"
  using assms by (simp add: abortTransaction_def Let_def removeWaitEdges_def after_release_def)

lemma abort_resources:
  assumes "find_tx m txId = Some tx"
  shows "resources (snd (abortTransaction m txId))
         = map (\<lambda>r. r\<lparr>waitQueue := filter (\<lambda>i. i \<noteq> txId) (waitQueue r)\<rparr>)
               (resources (after_release m txId tx))"
  using assms by (simp add: abortTransaction_def Let_def after_release_def)

lemma abort_wfg_ok:
  assumes "wfg_ok (wfg m)" shows "wfg_ok (wfg (snd (abortTransaction m txId)))"
proof (cases "find_tx m txId")
  case None
  with assms show ?thesis by (simp add: abortTransaction_def)
next
  case (Some tx)
  let ?w5 = "wfg (after_release m txId tx)"
  have ok5: "wfg_ok ?w5" unfolding after_release_def
    by (rule wfg_ok_release_all) (simp add: assms)
  let ?w6 = "fold (\<lambda>node w. removeEdge w node txId) (getNodes ?w5) ?w5"
  from fold_removeEdge_in [OF ok5, of txId "getNodes ?w5"] have ok6: "wfg_ok ?w6" by simp
  from fold_removeEdge_out [OF ok6, of txId "getNeighbors ?w6 txId"] show ?thesis
    unfolding abort_wfg [OF Some] by simp
qed

lemma abort_no_edges:
  assumes ok: "wfg_ok (wfg m)" and f: "find_tx m txId = Some tx"
  shows "\<not> hasEdge (wfg (snd (abortTransaction m txId))) u txId"
    and "\<not> hasEdge (wfg (snd (abortTransaction m txId))) txId v"
proof -
  let ?w5 = "wfg (after_release m txId tx)"
  have ok5: "wfg_ok ?w5" unfolding after_release_def
    by (rule wfg_ok_release_all) (simp add: ok)
  let ?w6 = "fold (\<lambda>node w. removeEdge w node txId) (getNodes ?w5) ?w5"
  from fold_removeEdge_in [OF ok5, of txId "getNodes ?w5"]
  have ok6: "wfg_ok ?w6"
    and e6: "\<And>u v. hasEdge ?w6 u v \<longleftrightarrow> hasEdge ?w5 u v \<and> \<not> (v = txId \<and> u \<in> set (getNodes ?w5))"
    by blast+
  let ?w7 = "fold (\<lambda>neighbor w. removeEdge w txId neighbor) (getNeighbors ?w6 txId) ?w6"
  from fold_removeEdge_out [OF ok6, of txId "getNeighbors ?w6 txId"]
  have e7: "\<And>u v. hasEdge ?w7 u v \<longleftrightarrow> hasEdge ?w6 u v \<and> \<not> (u = txId \<and> v \<in> set (getNeighbors ?w6 txId))"
    by blast
  have w7: "wfg (snd (abortTransaction m txId)) = ?w7" by (rule abort_wfg [OF f])
  show "\<not> hasEdge (wfg (snd (abortTransaction m txId))) u txId"
    unfolding w7 e7 e6 using hasEdge_node [OF ok5, of u txId] by blast
  show "\<not> hasEdge (wfg (snd (abortTransaction m txId))) txId v"
    unfolding w7 e7 using getNeighbors_iff [OF ok6, of v txId] by blast
qed

text \<open>
  Claim C9 (abort removes the transaction from detection).  After a successful
  \<open>abortTransaction(tx)\<close> no edge of the graph starts or ends at \<open>tx\<close>, no wait queue
  contains \<open>tx\<close>, and no cycle that \<open>detectDeadlock()\<close> reports next mentions \<open>tx\<close>.  For the
  matrix this needs its class invariant, which \<open>new TransactionManager\<close> establishes for
  distinct transaction ids and every operation keeps (\<open>wfg_ok_new_manager\<close>,
  \<open>wfg_ok_acquireLock\<close>, \<open>wfg_ok_releaseLock\<close>, \<open>abort_wfg_ok\<close>).
\<close>

theorem abort_removes_transaction:
  assumes ok: "wfg_ok (wfg m)" and s: "success (fst (abortTransaction m txId))"
  shows "(\<forall>n. \<not> hasEdge (wfg (snd (abortTransaction m txId))) n txId
              \<and> \<not> hasEdge (wfg (snd (abortTransaction m txId))) txId n
              \<and> txId \<notin> set (getNeighbors (wfg (snd (abortTransaction m txId))) n))
         \<and> getNeighbors (wfg (snd (abortTransaction m txId))) txId = []
         \<and> (\<forall>r\<in>set (resources (snd (abortTransaction m txId))). txId \<notin> set (waitQueue r))
         \<and> (\<forall>c\<in>set (cycles (fst (mgr_detectDeadlock (snd (abortTransaction m txId))))).
               txId \<notin> set c)"
proof -
  let ?m' = "snd (abortTransaction m txId)"
  from s obtain tx where f: "find_tx m txId = Some tx"
    by (cases "find_tx m txId") (simp_all add: abortTransaction_def)
  note ne = abort_no_edges [OF ok f]
  note ok' = abort_wfg_ok [OF ok, of txId]
  have 1: "\<not> hasEdge (wfg ?m') n txId \<and> \<not> hasEdge (wfg ?m') txId n
           \<and> txId \<notin> set (getNeighbors (wfg ?m') n)" for n
    using ne [of n] getNeighbors_iff [OF ok', of txId n] by simp
  have 2: "getNeighbors (wfg ?m') txId = []"
  proof (rule ccontr)
    assume "getNeighbors (wfg ?m') txId \<noteq> []"
    then obtain v where "v \<in> set (getNeighbors (wfg ?m') txId)"
      by (cases "getNeighbors (wfg ?m') txId") auto
    with getNeighbors_iff [OF ok', of v txId] ne(2) [of v] show False by simp
  qed
  have 3: "\<forall>r\<in>set (resources ?m'). txId \<notin> set (waitQueue r)"
    unfolding abort_resources [OF f] by auto
  have 4: "txId \<notin> set c" if c: "c \<in> set (cycles (fst (mgr_detectDeadlock ?m')))" for c
  proof
    assume "txId \<in> set c"
    moreover from c have "set c \<subseteq> Field (edges (graph_of (wfg ?m')))"
      by (simp add: mgr_detectDeadlock_def Let_def detectDeadlock_cycles_touched)
    ultimately have "txId \<in> Field (edges (graph_of (wfg ?m')))" by blast
    then obtain n where "(txId, n) \<in> edges (graph_of (wfg ?m')) \<or> (n, txId) \<in> edges (graph_of (wfg ?m'))"
      by (auto simp: Field_def)
    with ne [of n] show False by (simp add: edges_graph_of [OF ok'])
  qed
  from 1 2 3 4 show ?thesis by blast
qed

lemma wfg_ok_acquire_all:
  "wfg_ok (wfg m) \<Longrightarrow> wfg_ok (wfg (fold (\<lambda>(txId, resId) m. snd (acquireLock m txId resId)) reqs m))"
  by (induction reqs arbitrary: m) (auto simp: wfg_ok_acquireLock)

theorem abort_removes_transaction_witness:
  "success (fst (abortTransaction deadlocked ''T1''))
   \<and> cycles (fst (mgr_detectDeadlock deadlocked))
       = [[''T1'', ''T2'', ''T3'', ''T1''], [''T4'', ''T5'', ''T4'']]
   \<and> cycles (fst (mgr_detectDeadlock (snd (abortTransaction deadlocked ''T1''))))
       = [[''T4'', ''T5'', ''T4'']]
   \<and> getNeighbors (wfg (snd (abortTransaction deadlocked ''T1''))) ''T1'' = []
   \<and> \<not> hasEdge (wfg (snd (abortTransaction deadlocked ''T1''))) ''T3'' ''T1''"
proof -
  have ok: "wfg_ok (wfg deadlocked)"
    unfolding deadlocked_def
    by (rule wfg_ok_acquire_all) (simp add: wfg_ok_new_manager fresh_tx_def)
  have s: "success (fst (abortTransaction deadlocked ''T1''))"
    by code_simp
  have c: "cycles (fst (mgr_detectDeadlock deadlocked))
       = [[''T1'', ''T2'', ''T3'', ''T1''], [''T4'', ''T5'', ''T4'']]"
    by code_simp
  have d: "cycles (fst (mgr_detectDeadlock (snd (abortTransaction deadlocked ''T1''))))
       = [[''T4'', ''T5'', ''T4'']]"
    by code_simp
  from abort_removes_transaction [OF ok s] s c d show ?thesis by blast
qed

subsection \<open>Reachability colouring\<close>

paragraph \<open>Breadth-first reachability\<close>

definition bfs_inv :: "'a graph \<Rightarrow> 'a \<Rightarrow> 'a list \<Rightarrow> 'a set \<Rightarrow> 'a list \<Rightarrow> bool" where
  "bfs_inv g a q seen reach \<longleftrightarrow>
     seen = insert a (set reach) \<and> set q \<subseteq> seen
     \<and> (\<forall>x\<in>seen - set q. edges g `` {x} \<subseteq> seen)"

lemma reach_scan_props:
  "reach_scan nbs (q, seen, reach) = (q', seen', reach') \<Longrightarrow> seen = insert a (set reach) \<Longrightarrow>
   seen' = insert a (set reach') \<and> seen \<subseteq> seen'
   \<and> set nbs \<subseteq> seen' \<and> set q' = set q \<union> (seen' - seen)"
proof (induction nbs arbitrary: q seen reach)
  case Nil
  then show ?case by auto
next
  case (Cons nb nbs)
  show ?case
  proof (cases "nb \<in> seen")
    case True
    with Cons.prems(1) have "reach_scan nbs (q, seen, reach) = (q', seen', reach')" by simp
    from Cons.IH [OF this Cons.prems(2)] True show ?thesis by auto
  next
    case False
    with Cons.prems(1)
    have sc: "reach_scan nbs (q @ [nb], insert nb seen, set_add reach nb) = (q', seen', reach')"
      by simp
    from Cons.prems(2) have "insert nb seen = insert a (set (set_add reach nb))"
      by (auto simp: set_add_set)
    from Cons.IH [OF sc this] False show ?thesis by auto
  qed
qed

lemma reach_loop_complete:
  "bfs_inv g a q seen reach \<Longrightarrow> (a, b) \<in> (edges g)\<^sup>* \<Longrightarrow> b \<noteq> a
   \<Longrightarrow> b \<in> set (reach_loop g q seen reach)"
proof (induction g q seen reach rule: reach_loop.induct)
  case (1 g seen reach)
  from "1.prems"(1) have s: "seen = insert a (set reach)" and cl: "edges g `` seen \<subseteq> seen"
    by (auto simp: bfs_inv_def)
  from cl have "(edges g)\<^sup>* `` seen = seen" by (rule Image_closed_trancl)
  with "1.prems"(2) s have "b \<in> seen" by blast
  with s "1.prems"(3) show ?case by simp
next
  case (2 g cur rest seen reach)
  obtain q' seen' reach' where sc: "reach_scan (vNeighbors g cur) (rest, seen, reach) = (q', seen', reach')"
    by (cases "reach_scan (vNeighbors g cur) (rest, seen, reach)") auto
  from "2.prems"(1) have s: "seen = insert a (set reach)" and qs: "set (cur # rest) \<subseteq> seen"
    and cl: "\<forall>x\<in>seen - set (cur # rest). edges g `` {x} \<subseteq> seen"
    by (auto simp: bfs_inv_def)
  from reach_scan_props [OF sc s]
  have 1: "seen' = insert a (set reach')"
    and ss: "seen \<subseteq> seen'" and nb: "set (vNeighbors g cur) \<subseteq> seen'"
    and q: "set q' = set rest \<union> (seen' - seen)" by blast+
  have 2: "set q' \<subseteq> seen'" using q qs ss by auto
  have 3: "edges g `` {x} \<subseteq> seen'" if x: "x \<in> seen' - set q'" for x
  proof (cases "x = cur")
    case True
    with nb show ?thesis by (auto simp: edges_def)
  next
    case False
    with x q have "x \<in> seen - set (cur # rest)" by auto
    with cl ss show ?thesis by blast
  qed
  from 1 2 3 have inv': "bfs_inv g a q' seen' reach'" unfolding bfs_inv_def by blast
  from "2.IH" [OF sc [symmetric] refl inv' "2.prems"(2,3)] sc show ?case by simp
qed

lemma reach_of_complete:
  assumes "(a, b) \<in> (edges g)\<^sup>+" and "b \<noteq> a"
  shows "b \<in> set (reach_of g a)"
proof -
  have "bfs_inv g a [a] {a} []" by (simp add: bfs_inv_def)
  moreover from assms(1) have "(a, b) \<in> (edges g)\<^sup>*" by (rule trancl_into_rtrancl)
  ultimately show ?thesis unfolding reach_of_def using assms(2) by (rule reach_loop_complete)
qed

paragraph \<open>The reachability table and the conflict sets\<close>

lemma fold_dict_set_get:
  "dict_get (fold (\<lambda>n d. dict_set d n (f n)) ns d0) a
   = (if a \<in> set ns then Some (f a) else dict_get d0 a)"
  by (induction ns arbitrary: d0) (auto simp: dict_get_set)

lemma build_reach_get:
  "dict_get (build_reach g ns) a = (if a \<in> set ns then Some (reach_of g a) else None)"
proof -
  have "dict_get ([] :: ('a \<times> 'a list) list) a = None" by (simp add: dict_get_def)
  with fold_dict_set_get [of "reach_of g" ns "[]" a] show ?thesis by (simp add: build_reach_def)
qed

lemma reach_has_iff:
  "reach_has (build_reach g ns) a b \<longleftrightarrow> a \<in> set ns \<and> b \<in> set (reach_of g a)"
  by (simp add: reach_has_def build_reach_get)

lemma adj_get_add:
  "adj_get (adj_add adj a b) x
   = (if x = a \<and> dict_get adj a \<noteq> None then set_add (adj_get adj a) b else adj_get adj x)"
  by (auto simp: adj_get_def adj_add_def dict_get_set split: option.splits)

lemma adj_add_keys: "dict_get (adj_add adj a b) x = None \<longleftrightarrow> dict_get adj x = None"
  by (auto simp: adj_add_def dict_get_set split: option.splits)

definition adj_le :: "('a \<times> 'a list) list \<Rightarrow> ('a \<times> 'a list) list \<Rightarrow> bool" where
  "adj_le adj adj' \<longleftrightarrow>
     (\<forall>x. (dict_get adj' x = None \<longleftrightarrow> dict_get adj x = None)
          \<and> set (adj_get adj x) \<subseteq> set (adj_get adj' x))"

lemma adj_le_refl: "adj_le adj adj"
  by (simp add: adj_le_def)

lemma adj_le_trans: "adj_le a b \<Longrightarrow> adj_le b c \<Longrightarrow> adj_le a c"
  unfolding adj_le_def by (metis subset_trans)

lemma adj_le_add: "adj_le adj (adj_add adj a b)"
  by (auto simp: adj_le_def adj_add_keys adj_get_add set_add_set)

lemma adj_le_pair: "adj_le adj (conflict_pair reach a b adj)"
  unfolding conflict_pair_def
  by (auto intro: adj_le_refl adj_le_trans [OF adj_le_add adj_le_add])

lemma adj_le_inner: "adj_le adj (fold (\<lambda>b adj. conflict_pair reach a b adj) bs adj)"
proof (induction bs arbitrary: adj)
  case Nil
  show ?case by (simp add: adj_le_refl)
next
  case (Cons b bs)
  from adj_le_trans [OF adj_le_pair Cons.IH] show ?case by simp
qed

lemma adj_le_outer:
  "adj_le adj (fold (\<lambda>a adj. fold (\<lambda>b adj. conflict_pair reach a b adj) bs adj) as adj)"
proof (induction as arbitrary: adj)
  case Nil
  show ?case by (simp add: adj_le_refl)
next
  case (Cons a as)
  from adj_le_trans [OF adj_le_inner Cons.IH] show ?case by simp
qed

lemma conflict_pair_records:
  assumes "a \<noteq> b" and "reach_has reach a b \<or> reach_has reach b a"
    and "dict_get adj a \<noteq> None" and "dict_get adj b \<noteq> None"
  shows "b \<in> set (adj_get (conflict_pair reach a b adj) a)"
    and "a \<in> set (adj_get (conflict_pair reach a b adj) b)"
  using assms
  by (auto simp: conflict_pair_def adj_get_add adj_add_keys set_add_set)

lemma inner_records:
  assumes "b \<in> set bs" and "a \<noteq> b" and "reach_has reach a b \<or> reach_has reach b a"
    and "dict_get adj a \<noteq> None" and "dict_get adj b \<noteq> None"
  shows "b \<in> set (adj_get (fold (\<lambda>b adj. conflict_pair reach a b adj) bs adj) a)
         \<and> a \<in> set (adj_get (fold (\<lambda>b adj. conflict_pair reach a b adj) bs adj) b)"
  using assms
proof (induction bs arbitrary: adj)
  case Nil
  then show ?case by simp
next
  case (Cons x bs)
  let ?adj1 = "conflict_pair reach a x adj"
  have le: "adj_le adj ?adj1" by (rule adj_le_pair)
  show ?case
  proof (cases "x = b")
    case True
    from conflict_pair_records [OF Cons.prems(2,3,4,5)] True
    have "b \<in> set (adj_get ?adj1 a)" "a \<in> set (adj_get ?adj1 b)" by simp_all
    moreover have "adj_le ?adj1 (fold (\<lambda>b adj. conflict_pair reach a b adj) bs ?adj1)"
      by (rule adj_le_inner)
    ultimately show ?thesis unfolding adj_le_def by auto
  next
    case False
    with Cons.prems(1) have "b \<in> set bs" by simp
    moreover from le have "\<And>y. dict_get ?adj1 y = None \<longleftrightarrow> dict_get adj y = None"
      unfolding adj_le_def by blast
    with Cons.prems(4,5) have "dict_get ?adj1 a \<noteq> None" "dict_get ?adj1 b \<noteq> None"
      by simp_all
    ultimately show ?thesis using Cons.IH [of ?adj1] Cons.prems(2,3) by simp
  qed
qed

lemma outer_records:
  assumes "a \<in> set as" and "b \<in> set bs" and "a \<noteq> b"
    and "reach_has reach a b \<or> reach_has reach b a"
    and "dict_get adj a \<noteq> None" and "dict_get adj b \<noteq> None"
  shows "b \<in> set (adj_get (fold (\<lambda>a adj. fold (\<lambda>b adj. conflict_pair reach a b adj) bs adj) as adj) a)
         \<and> a \<in> set (adj_get (fold (\<lambda>a adj. fold (\<lambda>b adj. conflict_pair reach a b adj) bs adj) as adj) b)"
  using assms
proof (induction as arbitrary: adj)
  case Nil
  then show ?case by simp
next
  case (Cons x as)
  let ?adj1 = "fold (\<lambda>b adj. conflict_pair reach x b adj) bs adj"
  have le: "adj_le adj ?adj1" by (rule adj_le_inner)
  show ?case
  proof (cases "x = a")
    case True
    from inner_records [OF Cons.prems(2,3,4,5,6)] True
    have "b \<in> set (adj_get ?adj1 a)" "a \<in> set (adj_get ?adj1 b)" by simp_all
    moreover have "adj_le ?adj1 (fold (\<lambda>a adj. fold (\<lambda>b adj. conflict_pair reach a b adj) bs adj) as ?adj1)"
      by (rule adj_le_outer)
    ultimately show ?thesis unfolding adj_le_def by auto
  next
    case False
    with Cons.prems(1) have "a \<in> set as" by simp
    moreover from le have "\<And>y. dict_get ?adj1 y = None \<longleftrightarrow> dict_get adj y = None"
      unfolding adj_le_def by blast
    with Cons.prems(5,6) have "dict_get ?adj1 a \<noteq> None" "dict_get ?adj1 b \<noteq> None"
      by simp_all
    ultimately show ?thesis using Cons.IH [of ?adj1] Cons.prems(2,3,4) by simp
  qed
qed

lemma conflictAdj_records:
  assumes "a \<in> set ns" and "b \<in> set ns" and "a \<noteq> b"
    and "reach_has reach a b \<or> reach_has reach b a"
  shows "b \<in> set (adj_get (build_conflictAdj reach ns) a)"
    and "a \<in> set (adj_get (build_conflictAdj reach ns) b)"
proof -
  let ?adj0 = "fold (\<lambda>a adj. dict_set adj a []) ns ([] :: ('a \<times> 'a list) list)"
  have k: "dict_get ?adj0 x = (if x \<in> set ns then Some [] else None)" for x
  proof -
    have "dict_get ([] :: ('a \<times> 'a list) list) x = None" by (simp add: dict_get_def)
    with fold_dict_set_get [of "\<lambda>_. [] :: 'a list" ns "[]" x] show ?thesis by simp
  qed
  from assms(1,2) have "dict_get ?adj0 a \<noteq> None" "dict_get ?adj0 b \<noteq> None" by (simp_all add: k)
  from outer_records [OF assms(1,2,3,4) this]
  show "b \<in> set (adj_get (build_conflictAdj reach ns) a)"
    and "a \<in> set (adj_get (build_conflictAdj reach ns) b)"
    by (simp_all add: build_conflictAdj_def)
qed

paragraph \<open>Greedy colouring\<close>

lemma first_free_unused: "first_free used c \<notin> set used"
proof (induction used c rule: first_free.induct)
  case (1 used c)
  show ?case
  proof (cases "c \<in> set used")
    case True
    with "1.IH" show ?thesis by (subst first_free.simps) simp
  next
    case False
    then show ?thesis by (subst first_free.simps) simp
  qed
qed

lemma used_colors_set:
  "set (fold (\<lambda>nb used. case dict_get cols nb of None \<Rightarrow> used | Some c \<Rightarrow> set_add used c) nbs u0)
   = set u0 \<union> {c. \<exists>nb\<in>set nbs. dict_get cols nb = Some c}"
proof (induction nbs arbitrary: u0)
  case Nil
  then show ?case by simp
next
  case (Cons nb nbs)
  show ?case
  proof (cases "dict_get cols nb")
    case None
    with Cons.IH [of u0] show ?thesis by auto
  next
    case (Some c)
    with Cons.IH [of "set_add u0 c"] show ?thesis by (auto simp: set_add_set)
  qed
qed

definition proper :: "('a \<times> 'a list) list \<Rightarrow> ('a \<times> nat) list \<Rightarrow> bool" where
  "proper adj cols \<longleftrightarrow>
     (\<forall>x y cx cy. x \<noteq> y \<and> dict_get cols x = Some cx \<and> dict_get cols y = Some cy
                  \<and> y \<in> set (adj_get adj x) \<and> x \<in> set (adj_get adj y) \<longrightarrow> cx \<noteq> cy)"

lemma color_node_get:
  "dict_get (color_node adj node cols) x
   = (if x = node
      then Some (first_free (fold (\<lambda>nb used. case dict_get cols nb of None \<Rightarrow> used
                                                | Some c \<Rightarrow> set_add used c)
                                  (adj_get adj node) []) 0)
      else dict_get cols x)"
  by (simp add: color_node_def Let_def dict_get_set)

lemma color_node_avoids:
  assumes "dict_get (color_node adj node cols) node = Some c"
    and "y \<in> set (adj_get adj node)" and "dict_get cols y = Some cy"
  shows "c \<noteq> cy"
proof -
  let ?used = "fold (\<lambda>nb used. case dict_get cols nb of None \<Rightarrow> used | Some c \<Rightarrow> set_add used c)
                    (adj_get adj node) []"
  from assms(1) have c: "c = first_free ?used 0" by (simp add: color_node_get)
  from assms(2,3) have "cy \<in> set ?used" unfolding used_colors_set by auto
  with first_free_unused [of ?used 0] c show ?thesis by auto
qed

lemma proper_color_node:
  assumes "proper adj cols" shows "proper adj (color_node adj node cols)"
  unfolding proper_def
proof (intro allI impI)
  fix x y cx cy
  assume a: "x \<noteq> y \<and> dict_get (color_node adj node cols) x = Some cx
             \<and> dict_get (color_node adj node cols) y = Some cy
             \<and> y \<in> set (adj_get adj x) \<and> x \<in> set (adj_get adj y)"
  show "cx \<noteq> cy"
  proof (cases "x = node")
    case True
    with a have yn: "y \<noteq> node" by auto
    from a have "dict_get (color_node adj node cols) y = Some cy" by simp
    with yn have "dict_get cols y = Some cy" by (simp add: color_node_get)
    with color_node_avoids [of adj node cols cx y cy] a True show ?thesis by simp
  next
    case xn: False
    show ?thesis
    proof (cases "y = node")
      case True
      from a have "dict_get (color_node adj node cols) x = Some cx" by simp
      with xn have "dict_get cols x = Some cx" by (simp add: color_node_get)
      with color_node_avoids [of adj node cols cy x cx] a True show ?thesis by auto
    next
      case False
      from a have "dict_get (color_node adj node cols) x = Some cx"
        and "dict_get (color_node adj node cols) y = Some cy" by simp_all
      with xn False have "dict_get cols x = Some cx" "dict_get cols y = Some cy"
        by (simp_all add: color_node_get)
      with assms a show ?thesis unfolding proper_def by blast
    qed
  qed
qed

lemma proper_fold: "proper adj cols \<Longrightarrow> proper adj (fold (color_node adj) ns cols)"
  by (induction ns arbitrary: cols) (simp_all add: proper_color_node)

lemma colored_fold:
  "dict_get (fold (color_node adj) ns cols) x \<noteq> None \<longleftrightarrow> x \<in> set ns \<or> dict_get cols x \<noteq> None"
  by (induction ns arbitrary: cols) (auto simp: color_node_get)

lemma colors_of_result:
  "colors (computeConflictColorsByReachability g)
   = fold (color_node (build_conflictAdj (build_reach g (vNodes g)) (vNodes g))) (vNodes g) []"
  by (simp add: computeConflictColorsByReachability_def Let_def)

text \<open>
  Claim C6 (colouring safety).  \<open>computeConflictColorsByReachability\<close> gives every node a
  colour, and two distinct nodes with the same colour do not reach one another in the
  wait-for graph, in either direction, by any number of edges.
\<close>

theorem coloring_safe:
  "(\<forall>n\<in>set (vNodes g). \<exists>c. dict_get (colors (computeConflictColorsByReachability g)) n = Some c)
   \<and> (\<forall>a b c. a \<noteq> b
          \<and> dict_get (colors (computeConflictColorsByReachability g)) a = Some c
          \<and> dict_get (colors (computeConflictColorsByReachability g)) b = Some c
          \<longrightarrow> (a, b) \<notin> (edges g)\<^sup>+ \<and> (b, a) \<notin> (edges g)\<^sup>+)"
proof (intro conjI ballI allI impI)
  let ?ns = "vNodes g"
  let ?reach = "build_reach g ?ns"
  let ?adj = "build_conflictAdj ?reach ?ns"
  let ?cols = "colors (computeConflictColorsByReachability g)"
  have none: "dict_get ([] :: ('a \<times> nat) list) x = None" for x by (simp add: dict_get_def)
  have pr: "proper ?adj ?cols"
    unfolding colors_of_result by (rule proper_fold) (simp add: proper_def none)
  have key: "dict_get ?cols x \<noteq> None \<longleftrightarrow> x \<in> set ?ns" for x
    unfolding colors_of_result using colored_fold [of ?adj ?ns "[]" x] none [of x] by blast
  {
    fix n assume "n \<in> set ?ns"
    with key [of n] show "\<exists>c. dict_get ?cols n = Some c" by auto
  }
  {
    fix a b c
    assume h: "a \<noteq> b \<and> dict_get ?cols a = Some c \<and> dict_get ?cols b = Some c"
    with key [of a] key [of b] have an: "a \<in> set ?ns" and bn: "b \<in> set ?ns" by auto
    have no: "\<not> (reach_has ?reach a b \<or> reach_has ?reach b a)"
    proof
      assume r: "reach_has ?reach a b \<or> reach_has ?reach b a"
      from h have ab: "a \<noteq> b" by simp
      from conflictAdj_records [OF an bn ab r]
      have "b \<in> set (adj_get ?adj a)" "a \<in> set (adj_get ?adj b)" .
      with pr h show False unfolding proper_def by blast
    qed
    show "(a, b) \<notin> (edges g)\<^sup>+"
    proof
      assume "(a, b) \<in> (edges g)\<^sup>+"
      from reach_of_complete [OF this] h have "b \<in> set (reach_of g a)" by auto
      with an no show False by (simp add: reach_has_iff)
    qed
    show "(b, a) \<notin> (edges g)\<^sup>+"
    proof
      assume "(b, a) \<in> (edges g)\<^sup>+"
      from reach_of_complete [OF this] h have "a \<in> set (reach_of g b)" by auto
      with bn no show False by (simp add: reach_has_iff)
    qed
  }
qed

theorem coloring_safe_witness:
  "colors (computeConflictColorsByReachability fan_graph) = [(''T1'', 0), (''T2'', 1), (''T3'', 0)]
   \<and> (''T1'', ''T3'') \<notin> (edges fan_graph)\<^sup>+ \<and> (''T3'', ''T1'') \<notin> (edges fan_graph)\<^sup>+"
proof -
  let ?cols = "colors (computeConflictColorsByReachability fan_graph)"
  have c: "?cols = [(''T1'', 0), (''T2'', 1), (''T3'', 0)]"
    by code_simp
  then have t1: "dict_get ?cols ''T1'' = Some 0" and t3: "dict_get ?cols ''T3'' = Some 0"
    by (simp_all add: dict_get_def)
  have neq: "''T1'' \<noteq> ''T3''" by simp
  from coloring_safe [of fan_graph]
  have "\<And>a b c. a \<noteq> b \<Longrightarrow> dict_get ?cols a = Some c \<Longrightarrow> dict_get ?cols b = Some c
        \<Longrightarrow> (a, b) \<notin> (edges fan_graph)\<^sup>+ \<and> (b, a) \<notin> (edges fan_graph)\<^sup>+"
    by blast
  from this [OF neq t1 t3] c show ?thesis by simp
qed

subsection \<open>The choice of the distance-sum selector\<close>













subsection \<open>Strongly connected components of detectDeadlockTarjan\<close>

text \<open>
  The index and the low-link of a node that has them.
\<close>

abbreviation ix :: "'a tarjan_state \<Rightarrow> 'a \<Rightarrow> nat" where
  "ix st v \<equiv> the (indices st v)"

abbreviation lw :: "'a tarjan_state \<Rightarrow> 'a \<Rightarrow> nat" where
  "lw st v \<equiv> the (lowLinks st v)"

text \<open>
  The strongly connected component of a node: the nodes it reaches and that reach it.  The
  nodes of the graph are those listed by \<open>getNodes()\<close> and those named as a neighbour.
\<close>

definition scc_of :: "'a graph \<Rightarrow> 'a \<Rightarrow> 'a set" where
  "scc_of g v = {w. (v, w) \<in> (edges g)\<^sup>* \<and> (w, v) \<in> (edges g)\<^sup>*}"

definition vertices :: "'a graph \<Rightarrow> 'a set" where
  "vertices g = set (vNodes g) \<union> Range (edges g)"

text \<open>
  The invariant of the state between two steps: indices are below the counter; the stack has
  no duplicates, agrees with \<open>onStack\<close> and is ordered by index, the newest node on top; the
  visited nodes are those of the stack and of the components found so far; every component found
  is the strongly connected component of each of its nodes, and all successors of its nodes have
  been visited.
\<close>

definition tj_wf :: "'a graph \<Rightarrow> 'a tarjan_state \<Rightarrow> bool" where
  "tj_wf g st \<longleftrightarrow>
     (\<forall>v\<in>dom (indices st). ix st v < index st)
   \<and> distinct (stack st) \<and> onStack st = set (stack st) \<and> set (stack st) \<subseteq> dom (indices st)
   \<and> sorted_wrt (\<lambda>x y. ix st y < ix st x) (stack st)
   \<and> dom (lowLinks st) = dom (indices st)
   \<and> (\<forall>c\<in>set (sccs st). c \<noteq> [] \<and> (\<forall>v\<in>set c. set c = scc_of g v))
   \<and> distinct (concat (sccs st)) \<and> set (concat (sccs st)) \<inter> set (stack st) = {}
   \<and> dom (indices st) = set (concat (sccs st)) \<union> set (stack st)
   \<and> dom (indices st) \<subseteq> vertices g
   \<and> (\<forall>v\<in>set (concat (sccs st)). \<forall>w. (v, w) \<in> edges g \<longrightarrow> w \<in> dom (indices st))
   \<and> (\<forall>v\<in>set (stack st). lw st v \<le> ix st v)"

text \<open>
  \<open>processed g st v nbs\<close>: every edge out of \<open>v\<close>, except those to \<open>nbs\<close>, leads to a visited
  node, and the low-link of \<open>v\<close> is at most the index of that node when it is on the stack.
\<close>

definition processed :: "'a graph \<Rightarrow> 'a tarjan_state \<Rightarrow> 'a \<Rightarrow> 'a list \<Rightarrow> bool" where
  "processed g st v nbs \<longleftrightarrow>
     (\<forall>w. (v, w) \<in> edges g \<longrightarrow> w \<notin> set nbs \<longrightarrow>
          w \<in> dom (indices st) \<and> (w \<in> set (stack st) \<longrightarrow> lw st v \<le> ix st w))"

text \<open>
  The invariant of the loop of \<open>strongConnect(node)\<close>, with \<open>nbs\<close> the neighbours still to
  be considered: the nodes above \<open>node\<close> on the stack are reachable from it, are finished and
  have a low-link not below that of \<open>node\<close>; every node of the stack reaches \<open>node\<close>; and the
  low-link of \<open>node\<close> is the index of a node of the stack that \<open>node\<close> reaches.
\<close>

definition loop_inv :: "'a graph \<Rightarrow> 'a \<Rightarrow> 'a list \<Rightarrow> 'a tarjan_state \<Rightarrow> bool" where
  "loop_inv g node nbs st \<longleftrightarrow>
     tj_wf g st \<and> set nbs \<subseteq> set (vNeighbors g node)
   \<and> (\<exists>new old. stack st = new @ node # old
        \<and> (\<forall>y\<in>set new. (node, y) \<in> (edges g)\<^sup>* \<and> lw st node \<le> lw st y \<and> processed g st y []))
   \<and> (\<forall>y\<in>set (stack st). (y, node) \<in> (edges g)\<^sup>*)
   \<and> processed g st node nbs
   \<and> (\<exists>w\<in>set (stack st). ix st w = lw st node \<and> (node, w) \<in> (edges g)\<^sup>*)"

text \<open>
  What a run of the loop, and a call of \<open>strongConnect\<close>, leave unchanged: the indices of the
  nodes visited before, their low-links except that of the current node, and the old stack,
  on which only nodes not visited before may lie.
\<close>

definition tj_ext :: "'a \<Rightarrow> 'a tarjan_state \<Rightarrow> 'a tarjan_state \<Rightarrow> bool" where
  "tj_ext node st st' \<longleftrightarrow>
     (\<forall>v\<in>dom (indices st). indices st' v = indices st v)
   \<and> (\<forall>v\<in>dom (indices st). v \<noteq> node \<longrightarrow> lowLinks st' v = lowLinks st v)
   \<and> (\<exists>new. stack st' = new @ stack st \<and> set new \<inter> dom (indices st) = {})"

text \<open>
  The state after \<open>strongConnect(nb)\<close>: either the component of \<open>nb\<close> has been popped and the
  stack is the old one, or \<open>nb\<close> and nodes of its component lie on top of the old stack, and the
  low-link of \<open>nb\<close> is the index of a node of the old stack that \<open>nb\<close> reaches.
\<close>

definition sc_post :: "'a graph \<Rightarrow> 'a \<Rightarrow> 'a tarjan_state \<Rightarrow> 'a tarjan_state \<Rightarrow> bool" where
  "sc_post g nb st st' \<longleftrightarrow>
     tj_wf g st' \<and> tj_ext nb st st' \<and> nb \<in> dom (indices st') \<and> index st \<le> ix st' nb
   \<and> ((stack st' = stack st \<and> lw st' nb = ix st' nb)
      \<or> (\<exists>add. stack st' = add @ stack st \<and> nb \<in> set add
            \<and> (\<exists>w\<in>set (stack st). ix st' w = lw st' nb \<and> (nb, w) \<in> (edges g)\<^sup>*)
            \<and> (\<forall>y\<in>set add. (nb, y) \<in> (edges g)\<^sup>* \<and> (y, nb) \<in> (edges g)\<^sup>*
                   \<and> lw st' nb \<le> lw st' y \<and> processed g st' y [])))"

lemma tj_wfD:
  assumes "tj_wf g st"
  shows "\<And>v. v \<in> dom (indices st) \<Longrightarrow> ix st v < index st"
    and "distinct (stack st)" and "onStack st = set (stack st)"
    and "set (stack st) \<subseteq> dom (indices st)"
    and "sorted_wrt (\<lambda>x y. ix st y < ix st x) (stack st)"
    and "dom (lowLinks st) = dom (indices st)"
    and "\<And>c. c \<in> set (sccs st) \<Longrightarrow> c \<noteq> []"
    and "\<And>c v. c \<in> set (sccs st) \<Longrightarrow> v \<in> set c \<Longrightarrow> set c = scc_of g v"
    and "distinct (concat (sccs st))" and "set (concat (sccs st)) \<inter> set (stack st) = {}"
    and "dom (indices st) = set (concat (sccs st)) \<union> set (stack st)"
    and "dom (indices st) \<subseteq> vertices g"
    and "\<And>v w. v \<in> set (concat (sccs st)) \<Longrightarrow> (v, w) \<in> edges g \<Longrightarrow> w \<in> dom (indices st)"
    and "\<And>v. v \<in> set (stack st) \<Longrightarrow> lw st v \<le> ix st v"
proof -
  from assms have
    1: "\<forall>v\<in>dom (indices st). ix st v < index st"
    and 2: "distinct (stack st)" and 3: "onStack st = set (stack st)"
    and 4: "set (stack st) \<subseteq> dom (indices st)"
    and 5: "sorted_wrt (\<lambda>x y. ix st y < ix st x) (stack st)"
    and 6: "dom (lowLinks st) = dom (indices st)"
    and 7: "\<forall>c\<in>set (sccs st). c \<noteq> [] \<and> (\<forall>v\<in>set c. set c = scc_of g v)"
    and 8: "distinct (concat (sccs st))" and 9: "set (concat (sccs st)) \<inter> set (stack st) = {}"
    and 10: "dom (indices st) = set (concat (sccs st)) \<union> set (stack st)"
    and 11: "dom (indices st) \<subseteq> vertices g"
    and 12: "\<forall>v\<in>set (concat (sccs st)). \<forall>w. (v, w) \<in> edges g \<longrightarrow> w \<in> dom (indices st)"
    and 13: "\<forall>v\<in>set (stack st). lw st v \<le> ix st v"
    unfolding tj_wf_def by - (elim conjE, assumption)+
  show "\<And>v. v \<in> dom (indices st) \<Longrightarrow> ix st v < index st" using 1 by (rule bspec)
  show "distinct (stack st)" by (rule 2)
  show "onStack st = set (stack st)" by (rule 3)
  show "set (stack st) \<subseteq> dom (indices st)" by (rule 4)
  show "sorted_wrt (\<lambda>x y. ix st y < ix st x) (stack st)" by (rule 5)
  show "dom (lowLinks st) = dom (indices st)" by (rule 6)
  show "\<And>c. c \<in> set (sccs st) \<Longrightarrow> c \<noteq> []"
  proof -
    fix c assume "c \<in> set (sccs st)"
    with 7 have "c \<noteq> [] \<and> (\<forall>v\<in>set c. set c = scc_of g v)" by (rule bspec)
    then show "c \<noteq> []" by (rule conjunct1)
  qed
  show "\<And>c v. c \<in> set (sccs st) \<Longrightarrow> v \<in> set c \<Longrightarrow> set c = scc_of g v"
  proof -
    fix c v assume "c \<in> set (sccs st)" "v \<in> set c"
    from 7 \<open>c \<in> set (sccs st)\<close> have "c \<noteq> [] \<and> (\<forall>v\<in>set c. set c = scc_of g v)" by (rule bspec)
    then have "\<forall>v\<in>set c. set c = scc_of g v" by (rule conjunct2)
    then show "set c = scc_of g v" using \<open>v \<in> set c\<close> by (rule bspec)
  qed
  show "distinct (concat (sccs st))" by (rule 8)
  show "set (concat (sccs st)) \<inter> set (stack st) = {}" by (rule 9)
  show "dom (indices st) = set (concat (sccs st)) \<union> set (stack st)" by (rule 10)
  show "dom (indices st) \<subseteq> vertices g" by (rule 11)
  show "\<And>v w. v \<in> set (concat (sccs st)) \<Longrightarrow> (v, w) \<in> edges g \<Longrightarrow> w \<in> dom (indices st)"
  proof -
    fix v w assume v: "v \<in> set (concat (sccs st))" and e: "(v, w) \<in> edges g"
    from 12 v have "\<forall>w. (v, w) \<in> edges g \<longrightarrow> w \<in> dom (indices st)" by (rule bspec)
    with e show "w \<in> dom (indices st)" by (elim allE impE) 
  qed
  show "\<And>v. v \<in> set (stack st) \<Longrightarrow> lw st v \<le> ix st v" using 13 by (rule bspec)
qed

lemma loop_invD:
  assumes "loop_inv g node nbs st"
  shows "tj_wf g st" and "set nbs \<subseteq> set (vNeighbors g node)"
    and "\<exists>new old. stack st = new @ node # old
        \<and> (\<forall>y\<in>set new. (node, y) \<in> (edges g)\<^sup>* \<and> lw st node \<le> lw st y \<and> processed g st y [])"
    and "\<And>y. y \<in> set (stack st) \<Longrightarrow> (y, node) \<in> (edges g)\<^sup>*"
    and "processed g st node nbs"
    and "\<exists>w\<in>set (stack st). ix st w = lw st node \<and> (node, w) \<in> (edges g)\<^sup>*"
proof -
  from assms have
    1: "tj_wf g st" and 2: "set nbs \<subseteq> set (vNeighbors g node)"
    and 3: "\<exists>new old. stack st = new @ node # old
        \<and> (\<forall>y\<in>set new. (node, y) \<in> (edges g)\<^sup>* \<and> lw st node \<le> lw st y \<and> processed g st y [])"
    and 4: "\<forall>y\<in>set (stack st). (y, node) \<in> (edges g)\<^sup>*"
    and 5: "processed g st node nbs"
    and 6: "\<exists>w\<in>set (stack st). ix st w = lw st node \<and> (node, w) \<in> (edges g)\<^sup>*"
    unfolding loop_inv_def by - (elim conjE, assumption)+
  show "tj_wf g st" by (rule 1)
  show "set nbs \<subseteq> set (vNeighbors g node)" by (rule 2)
  show "\<exists>new old. stack st = new @ node # old
        \<and> (\<forall>y\<in>set new. (node, y) \<in> (edges g)\<^sup>* \<and> lw st node \<le> lw st y \<and> processed g st y [])"
    by (rule 3)
  show "\<And>y. y \<in> set (stack st) \<Longrightarrow> (y, node) \<in> (edges g)\<^sup>*" using 4 by (rule bspec)
  show "processed g st node nbs" by (rule 5)
  show "\<exists>w\<in>set (stack st). ix st w = lw st node \<and> (node, w) \<in> (edges g)\<^sup>*" by (rule 6)
qed

lemma tj_extD:
  assumes "tj_ext node st st'"
  shows "\<And>v. v \<in> dom (indices st) \<Longrightarrow> indices st' v = indices st v"
    and "\<And>v. v \<in> dom (indices st) \<Longrightarrow> v \<noteq> node \<Longrightarrow> lowLinks st' v = lowLinks st v"
    and "\<exists>new. stack st' = new @ stack st \<and> set new \<inter> dom (indices st) = {}"
  using assms unfolding tj_ext_def by blast+

lemma tj_ext_dom: "tj_ext node st st' \<Longrightarrow> dom (indices st) \<subseteq> dom (indices st')"
  unfolding tj_ext_def by (metis domIff subsetI)

lemma tj_ext_refl: "tj_ext node st st"
  by (simp add: tj_ext_def)

lemma tj_ext_trans:
  assumes a: "tj_ext node st st1" and b: "tj_ext node st1 st2"
  shows "tj_ext node st st2"
proof -
  note d = tj_ext_dom [OF a]
  have 1: "\<forall>v\<in>dom (indices st). indices st2 v = indices st v"
    using tj_extD(1) [OF a] tj_extD(1) [OF b] d by (metis subsetD)
  have 2: "\<forall>v\<in>dom (indices st). v \<noteq> node \<longrightarrow> lowLinks st2 v = lowLinks st v"
    using tj_extD(2) [OF a] tj_extD(2) [OF b] d by (metis subsetD)
  from tj_extD(3) [OF a] obtain n1 where n1: "stack st1 = n1 @ stack st" "set n1 \<inter> dom (indices st) = {}"
    by blast
  from tj_extD(3) [OF b] obtain n2 where n2: "stack st2 = n2 @ stack st1" "set n2 \<inter> dom (indices st1) = {}"
    by blast
  from n2(2) d have "set n2 \<inter> dom (indices st) = {}" by blast
  with n1 n2(1) have "stack st2 = (n2 @ n1) @ stack st \<and> set (n2 @ n1) \<inter> dom (indices st) = {}"
    by auto
  then have 3: "\<exists>new. stack st2 = new @ stack st \<and> set new \<inter> dom (indices st) = {}" by blast
  from 1 2 3 show ?thesis unfolding tj_ext_def by blast
qed

lemma scc_of_self: "v \<in> scc_of g v"
  by (simp add: scc_of_def)

lemma scc_of_eq:
  assumes "v \<in> scc_of g u" shows "scc_of g v = scc_of g u"
  using assms unfolding scc_of_def by (auto intro: rtrancl_trans)

lemma pop_scc_split:
  "node \<notin> set new \<Longrightarrow>
   pop_scc node (new @ node # old) on acc = Some (old, on - set (new @ [node]), acc @ new @ [node])"
proof (induction new arbitrary: on acc)
  case Nil
  then show ?case by simp
next
  case (Cons a new)
  then have "pop_scc node ((a # new) @ node # old) on acc
             = pop_scc node (new @ node # old) (on - {a}) (acc @ [a])" by auto
  also from Cons have "\<dots> = Some (old, (on - {a}) - set (new @ [node]), (acc @ [a]) @ new @ [node])"
    by simp
  also have "(on - {a}) - set (new @ [node]) = on - set ((a # new) @ [node])" by auto
  finally show ?case by simp
qed

lemma processed_mono: "processed g st v (nb # nbs) \<Longrightarrow> 
   nb \<in> dom (indices st) \<and> (nb \<in> set (stack st) \<longrightarrow> lw st v \<le> ix st nb) \<Longrightarrow> processed g st v nbs"
  unfolding processed_def by auto

lemma tj_wfI:
  assumes "\<forall>v\<in>dom (indices st). ix st v < index st"
    and "distinct (stack st)" and "onStack st = set (stack st)"
    and "set (stack st) \<subseteq> dom (indices st)"
    and "sorted_wrt (\<lambda>x y. ix st y < ix st x) (stack st)"
    and "dom (lowLinks st) = dom (indices st)"
    and "\<forall>c\<in>set (sccs st). c \<noteq> [] \<and> (\<forall>v\<in>set c. set c = scc_of g v)"
    and "distinct (concat (sccs st))" and "set (concat (sccs st)) \<inter> set (stack st) = {}"
    and "dom (indices st) = set (concat (sccs st)) \<union> set (stack st)"
    and "dom (indices st) \<subseteq> vertices g"
    and "\<forall>v\<in>set (concat (sccs st)). \<forall>w. (v, w) \<in> edges g \<longrightarrow> w \<in> dom (indices st)"
    and "\<forall>v\<in>set (stack st). lw st v \<le> ix st v"
  shows "tj_wf g st"
  unfolding tj_wf_def by (intro conjI) (rule assms)+

lemma loop_invI:
  assumes "tj_wf g st" and "set nbs \<subseteq> set (vNeighbors g node)"
    and "\<exists>new old. stack st = new @ node # old
        \<and> (\<forall>y\<in>set new. (node, y) \<in> (edges g)\<^sup>* \<and> lw st node \<le> lw st y \<and> processed g st y [])"
    and "\<forall>y\<in>set (stack st). (y, node) \<in> (edges g)\<^sup>*"
    and "processed g st node nbs"
    and "\<exists>w\<in>set (stack st). ix st w = lw st node \<and> (node, w) \<in> (edges g)\<^sup>*"
  shows "loop_inv g node nbs st"
  unfolding loop_inv_def by (intro conjI) (rule assms)+

lemma tj_extI:
  assumes "\<forall>v\<in>dom (indices st). indices st' v = indices st v"
    and "\<forall>v\<in>dom (indices st). v \<noteq> node \<longrightarrow> lowLinks st' v = lowLinks st v"
    and "\<exists>new. stack st' = new @ stack st \<and> set new \<inter> dom (indices st) = {}"
  shows "tj_ext node st st'"
  unfolding tj_ext_def by (intro conjI) (rule assms)+

lemma sc_enter_simps:
  "indices (sc_enter node st) = (indices st)(node \<mapsto> index st)"
  "lowLinks (sc_enter node st) = (lowLinks st)(node \<mapsto> index st)"
  "index (sc_enter node st) = index st + 1"
  "stack (sc_enter node st) = node # stack st"
  "onStack (sc_enter node st) = insert node (onStack st)"
  "sccs (sc_enter node st) = sccs st"
  by (simp_all add: sc_enter_def)

lemma edge_iff: "(u, v) \<in> edges g \<longleftrightarrow> v \<in> set (vNeighbors g u)"
  by (simp add: edges_def)

lemma enter_wf:
  assumes wf: "tj_wf g st" and nv: "indices st nb = None" and vx: "nb \<in> vertices g"
  shows "tj_wf g (sc_enter nb st)"
proof (rule tj_wfI)
  note d = tj_wfD [OF wf]
  from nv have nd: "nb \<notin> dom (indices st)" by (simp add: domIff)
  with d(4) have ns: "nb \<notin> set (stack st)" by blast
  from nd d(11) have nc: "nb \<notin> set (concat (sccs st))" by blast
  have same: "\<And>v. v \<in> dom (indices st) \<Longrightarrow> ix (sc_enter nb st) v = ix st v"
    using nd by (auto simp: sc_enter_simps)
  have samel: "\<And>v. v \<in> dom (indices st) \<Longrightarrow> lw (sc_enter nb st) v = lw st v"
    using nd by (auto simp: sc_enter_simps)
  show "\<forall>v\<in>dom (indices (sc_enter nb st)). ix (sc_enter nb st) v < index (sc_enter nb st)"
  proof
    fix v assume "v \<in> dom (indices (sc_enter nb st))"
    then have "v = nb \<or> v \<in> dom (indices st)" by (auto simp: sc_enter_simps)
    then show "ix (sc_enter nb st) v < index (sc_enter nb st)"
    proof
      assume "v = nb" then show ?thesis by (simp add: sc_enter_simps)
    next
      assume v: "v \<in> dom (indices st)"
      from d(1) [OF v] same [OF v] show ?thesis by (simp add: sc_enter_simps(3))
    qed
  qed
  show "distinct (stack (sc_enter nb st))" using d(2) ns by (simp add: sc_enter_simps)
  show "onStack (sc_enter nb st) = set (stack (sc_enter nb st))" using d(3) by (simp add: sc_enter_simps)
  show "set (stack (sc_enter nb st)) \<subseteq> dom (indices (sc_enter nb st))"
    using d(4) by (auto simp: sc_enter_simps)
  show "sorted_wrt (\<lambda>x y. ix (sc_enter nb st) y < ix (sc_enter nb st) x) (stack (sc_enter nb st))"
  proof -
    have a: "\<forall>y\<in>set (stack st). ix (sc_enter nb st) y < ix (sc_enter nb st) nb"
    proof
      fix y assume y: "y \<in> set (stack st)"
      with d(4) have yd: "y \<in> dom (indices st)" by blast
      from d(1) [OF yd] same [OF yd] show "ix (sc_enter nb st) y < ix (sc_enter nb st) nb"
        by (simp add: sc_enter_simps(1))
    qed
    have b: "sorted_wrt (\<lambda>x y. ix (sc_enter nb st) y < ix (sc_enter nb st) x) (stack st)"
    proof (rule sorted_wrt_mono_rel [OF _ d(5)])
      fix x y assume "x \<in> set (stack st)" "y \<in> set (stack st)" "ix st y < ix st x"
      with d(4) same show "ix (sc_enter nb st) y < ix (sc_enter nb st) x" by (metis subsetD)
    qed
    from a b show ?thesis by (simp add: sc_enter_simps(4))
  qed
  show "dom (lowLinks (sc_enter nb st)) = dom (indices (sc_enter nb st))"
    using d(6) by (simp add: sc_enter_simps)
  show "\<forall>c\<in>set (sccs (sc_enter nb st)). c \<noteq> [] \<and> (\<forall>v\<in>set c. set c = scc_of g v)"
    using d(7) d(8) by (simp add: sc_enter_simps(6))
  show "distinct (concat (sccs (sc_enter nb st)))" using d(9) by (simp add: sc_enter_simps(6))
  show "set (concat (sccs (sc_enter nb st))) \<inter> set (stack (sc_enter nb st)) = {}"
    using d(10) nc by (simp add: sc_enter_simps(4,6))
  show "dom (indices (sc_enter nb st)) = set (concat (sccs (sc_enter nb st))) \<union> set (stack (sc_enter nb st))"
    using d(11) by (simp add: sc_enter_simps(1,4,6))
  show "dom (indices (sc_enter nb st)) \<subseteq> vertices g"
    using d(12) vx by (simp add: sc_enter_simps(1))
  show "\<forall>v\<in>set (concat (sccs (sc_enter nb st))). \<forall>w. (v, w) \<in> edges g \<longrightarrow> w \<in> dom (indices (sc_enter nb st))"
  proof (intro ballI allI impI)
    fix v w assume "v \<in> set (concat (sccs (sc_enter nb st)))" "(v, w) \<in> edges g"
    then have "w \<in> dom (indices st)" using d(13) [of v w] by (simp add: sc_enter_simps(6))
    then show "w \<in> dom (indices (sc_enter nb st))" by (simp add: sc_enter_simps(1))
  qed
  show "\<forall>v\<in>set (stack (sc_enter nb st)). lw (sc_enter nb st) v \<le> ix (sc_enter nb st) v"
  proof
    fix v assume "v \<in> set (stack (sc_enter nb st))"
    then have "v = nb \<or> v \<in> set (stack st)" by (simp add: sc_enter_simps(4))
    then show "lw (sc_enter nb st) v \<le> ix (sc_enter nb st) v"
    proof
      assume "v = nb" then show ?thesis by (simp add: sc_enter_simps)
    next
      assume v: "v \<in> set (stack st)"
      with d(4) have vd: "v \<in> dom (indices st)" by blast
      from d(14) [OF v] same [OF vd] samel [OF vd] show ?thesis by simp
    qed
  qed
qed

lemma enter_inv:
  assumes wf: "tj_wf g st" and nv: "indices st nb = None" and vx: "nb \<in> vertices g"
    and reach: "\<And>y. y \<in> set (stack st) \<Longrightarrow> (y, nb) \<in> (edges g)\<^sup>*"
  shows "loop_inv g nb (vNeighbors g nb) (sc_enter nb st)"
proof (rule loop_invI)
  show "tj_wf g (sc_enter nb st)" using wf nv vx by (rule enter_wf)
  show "set (vNeighbors g nb) \<subseteq> set (vNeighbors g nb)" by simp
  have "stack (sc_enter nb st) = [] @ nb # stack st" by (simp add: sc_enter_simps)
  then show "\<exists>new old. stack (sc_enter nb st) = new @ nb # old
        \<and> (\<forall>y\<in>set new. (nb, y) \<in> (edges g)\<^sup>* \<and> lw (sc_enter nb st) nb \<le> lw (sc_enter nb st) y
               \<and> processed g (sc_enter nb st) y [])"
    by (intro exI [of _ "[]"] exI [of _ "stack st"]) simp
  show "\<forall>y\<in>set (stack (sc_enter nb st)). (y, nb) \<in> (edges g)\<^sup>*"
    using reach by (auto simp: sc_enter_simps(4))
  show "processed g (sc_enter nb st) nb (vNeighbors g nb)"
    by (simp add: processed_def edge_iff)
  show "\<exists>w\<in>set (stack (sc_enter nb st)). ix (sc_enter nb st) w = lw (sc_enter nb st) nb \<and> (nb, w) \<in> (edges g)\<^sup>*"
    by (rule bexI [of _ nb]) (simp_all add: sc_enter_simps)
qed

lemma lower_simps:
  "indices (st\<lparr>lowLinks := l\<rparr>) = indices st"
  "stack (st\<lparr>lowLinks := l\<rparr>) = stack st"
  "onStack (st\<lparr>lowLinks := l\<rparr>) = onStack st"
  "sccs (st\<lparr>lowLinks := l\<rparr>) = sccs st"
  "index (st\<lparr>lowLinks := l\<rparr>) = index st"
  "lowLinks (st\<lparr>lowLinks := l\<rparr>) = l"
  by simp_all

lemma tj_wf_lower:
  assumes wf: "tj_wf g st" and n: "node \<in> set (stack st)" and m: "m \<le> lw st node"
  shows "tj_wf g (st\<lparr>lowLinks := (lowLinks st)(node \<mapsto> m)\<rparr>)"
proof (rule tj_wfI)
  note d = tj_wfD [OF wf]
  let ?st = "st\<lparr>lowLinks := (lowLinks st)(node \<mapsto> m)\<rparr>"
  from n d(4) have nd: "node \<in> dom (indices st)" by blast
  show "\<forall>v\<in>dom (indices ?st). ix ?st v < index ?st" using d(1) by simp
  show "distinct (stack ?st)" using d(2) by simp
  show "onStack ?st = set (stack ?st)" using d(3) by simp
  show "set (stack ?st) \<subseteq> dom (indices ?st)" using d(4) by simp
  show "sorted_wrt (\<lambda>x y. ix ?st y < ix ?st x) (stack ?st)" using d(5) by simp
  show "dom (lowLinks ?st) = dom (indices ?st)" using d(6) nd by auto
  show "\<forall>c\<in>set (sccs ?st). c \<noteq> [] \<and> (\<forall>v\<in>set c. set c = scc_of g v)" using d(7) d(8) by simp
  show "distinct (concat (sccs ?st))" using d(9) by simp
  show "set (concat (sccs ?st)) \<inter> set (stack ?st) = {}" using d(10) by simp
  show "dom (indices ?st) = set (concat (sccs ?st)) \<union> set (stack ?st)" using d(11) by simp
  show "dom (indices ?st) \<subseteq> vertices g" using d(12) by simp
  show "\<forall>v\<in>set (concat (sccs ?st)). \<forall>w. (v, w) \<in> edges g \<longrightarrow> w \<in> dom (indices ?st)"
    using d(13) by simp
  show "\<forall>v\<in>set (stack ?st). lw ?st v \<le> ix ?st v"
  proof
    fix v assume v: "v \<in> set (stack ?st)"
    show "lw ?st v \<le> ix ?st v"
    proof (cases "v = node")
      case True
      with m d(14) [OF n] show ?thesis by simp
    next
      case False
      with v d(14) [of v] show ?thesis by simp
    qed
  qed
qed

lemma sc_postD:
  assumes "sc_post g nb st st'"
  shows "tj_wf g st'" and "tj_ext nb st st'" and "nb \<in> dom (indices st')" and "index st \<le> ix st' nb"
    and "(stack st' = stack st \<and> lw st' nb = ix st' nb)
      \<or> (\<exists>add. stack st' = add @ stack st \<and> nb \<in> set add
            \<and> (\<exists>w\<in>set (stack st). ix st' w = lw st' nb \<and> (nb, w) \<in> (edges g)\<^sup>*)
            \<and> (\<forall>y\<in>set add. (nb, y) \<in> (edges g)\<^sup>* \<and> (y, nb) \<in> (edges g)\<^sup>*
                   \<and> lw st' nb \<le> lw st' y \<and> processed g st' y []))"
  using assms unfolding sc_post_def by - (elim conjE, assumption)+

lemma sc_postI:
  assumes "tj_wf g st'" and "tj_ext nb st st'" and "nb \<in> dom (indices st')" and "index st \<le> ix st' nb"
    and "(stack st' = stack st \<and> lw st' nb = ix st' nb)
      \<or> (\<exists>add. stack st' = add @ stack st \<and> nb \<in> set add
            \<and> (\<exists>w\<in>set (stack st). ix st' w = lw st' nb \<and> (nb, w) \<in> (edges g)\<^sup>*)
            \<and> (\<forall>y\<in>set add. (nb, y) \<in> (edges g)\<^sup>* \<and> (y, nb) \<in> (edges g)\<^sup>*
                   \<and> lw st' nb \<le> lw st' y \<and> processed g st' y []))"
  shows "sc_post g nb st st'"
  unfolding sc_post_def by (intro conjI) (rule assms)+

lemma processed_lower:
  assumes "processed g st y nbs" and "y \<noteq> node"
  shows "processed g (st\<lparr>lowLinks := (lowLinks st)(node \<mapsto> m)\<rparr>) y nbs"
  using assms unfolding processed_def by simp

lemma processedD:
  assumes "processed g st v nbs" and "(v, w) \<in> edges g" and "w \<notin> set nbs"
  shows "w \<in> dom (indices st)" and "w \<in> set (stack st) \<Longrightarrow> lw st v \<le> ix st w"
  using assms unfolding processed_def by blast+

lemma skip_step:
  assumes li: "loop_inv g node (nb # rest) st" and vis: "indices st nb \<noteq> None"
    and on: "nb \<notin> onStack st"
  shows "loop_inv g node rest st"
proof (rule loop_invI)
  note d = tj_wfD [OF loop_invD(1) [OF li]]
  show "tj_wf g st" by (rule loop_invD(1) [OF li])
  show "set rest \<subseteq> set (vNeighbors g node)" using loop_invD(2) [OF li] by simp
  show "\<exists>new old. stack st = new @ node # old
        \<and> (\<forall>y\<in>set new. (node, y) \<in> (edges g)\<^sup>* \<and> lw st node \<le> lw st y \<and> processed g st y [])"
    by (rule loop_invD(3) [OF li])
  show "\<forall>y\<in>set (stack st). (y, node) \<in> (edges g)\<^sup>*" using loop_invD(4) [OF li] by blast
  show "processed g st node rest"
  proof (rule processed_mono [OF loop_invD(5) [OF li]])
    from vis on d(3) show "nb \<in> dom (indices st) \<and> (nb \<in> set (stack st) \<longrightarrow> lw st node \<le> ix st nb)"
      by (simp add: domIff)
  qed
  show "\<exists>w\<in>set (stack st). ix st w = lw st node \<and> (node, w) \<in> (edges g)\<^sup>*"
    by (rule loop_invD(6) [OF li])
qed

lemma onstack_step:
  assumes li: "loop_inv g node (nb # rest) st" and vis: "indices st nb \<noteq> None"
    and on: "nb \<in> onStack st"
  shows "\<exists>st1. min_low node (indices st nb) st = Some st1 \<and> loop_inv g node rest st1
               \<and> tj_ext node st st1"
proof -
  note wf = loop_invD(1) [OF li]
  note d = tj_wfD [OF wf]
  from loop_invD(3) [OF li] obtain new old where S: "stack st = new @ node # old"
    and N: "\<forall>y\<in>set new. (node, y) \<in> (edges g)\<^sup>* \<and> lw st node \<le> lw st y \<and> processed g st y []"
    by blast
  from S have nS: "node \<in> set (stack st)" by simp
  with d(4) have nD: "node \<in> dom (indices st)" by blast
  with d(6) obtain a where a: "lowLinks st node = Some a" by blast
  from vis obtain b where b: "indices st nb = Some b" by blast
  define m where "m = min a b"
  define st1 where "st1 = st\<lparr>lowLinks := (lowLinks st)(node \<mapsto> m)\<rparr>"
  have ml: "min_low node (indices st nb) st = Some st1"
    by (simp add: min_low_def a b st1_def m_def)
  have ma: "m \<le> lw st node" by (simp add: m_def a)
  have wf1: "tj_wf g st1" unfolding st1_def using wf nS ma by (rule tj_wf_lower)
  have s1: "indices st1 = indices st" "stack st1 = stack st" "lw st1 node = m"
    "\<And>v. v \<noteq> node \<Longrightarrow> lw st1 v = lw st v"
    by (simp_all add: st1_def)
  from S d(2) have new_ne: "\<And>y. y \<in> set new \<Longrightarrow> y \<noteq> node" by auto
  from loop_invD(2) [OF li] have edge: "(node, nb) \<in> edges g" by (simp add: edge_iff)
  from on d(3) have nbS: "nb \<in> set (stack st)" by simp
  have "loop_inv g node rest st1"
  proof (rule loop_invI)
    show "tj_wf g st1" by (rule wf1)
    show "set rest \<subseteq> set (vNeighbors g node)" using loop_invD(2) [OF li] by simp
    have "\<forall>y\<in>set new. (node, y) \<in> (edges g)\<^sup>* \<and> lw st1 node \<le> lw st1 y \<and> processed g st1 y []"
    proof
      fix y assume y: "y \<in> set new"
      from N y have 1: "(node, y) \<in> (edges g)\<^sup>*" and 2: "lw st node \<le> lw st y"
        and 3: "processed g st y []" by blast+
      from 2 ma s1(3) s1(4) [OF new_ne [OF y]] have "lw st1 node \<le> lw st1 y" by simp
      moreover from 3 new_ne [OF y] have "processed g st1 y []"
        unfolding st1_def by (rule processed_lower)
      ultimately show "(node, y) \<in> (edges g)\<^sup>* \<and> lw st1 node \<le> lw st1 y \<and> processed g st1 y []"
        using 1 by blast
    qed
    with S s1(2) show "\<exists>new old. stack st1 = new @ node # old
        \<and> (\<forall>y\<in>set new. (node, y) \<in> (edges g)\<^sup>* \<and> lw st1 node \<le> lw st1 y \<and> processed g st1 y [])"
      by auto
    show "\<forall>y\<in>set (stack st1). (y, node) \<in> (edges g)\<^sup>*"
      using loop_invD(4) [OF li] s1(2) by simp
    show "processed g st1 node rest"
      unfolding processed_def
    proof (intro allI impI)
      fix w assume e: "(node, w) \<in> edges g" and r: "w \<notin> set rest"
      show "w \<in> dom (indices st1) \<and> (w \<in> set (stack st1) \<longrightarrow> lw st1 node \<le> ix st1 w)"
      proof (cases "w = nb")
        case True
        with b have "w \<in> dom (indices st1)" by (simp add: s1(1) domIff)
        moreover have "lw st1 node \<le> ix st1 w" using True b by (simp add: s1 m_def)
        ultimately show ?thesis by simp
      next
        case False
        with r have "w \<notin> set (nb # rest)" by simp
        from processedD [OF loop_invD(5) [OF li] e this] ma
        show ?thesis by (auto simp: s1)
      qed
    qed
    show "\<exists>w\<in>set (stack st1). ix st1 w = lw st1 node \<and> (node, w) \<in> (edges g)\<^sup>*"
    proof (cases "b < a")
      case True
      then have "m = b" by (simp add: m_def)
      with nbS b edge show ?thesis by (intro bexI [of _ nb]) (auto simp: s1)
    next
      case False
      then have "m = a" by (simp add: m_def)
      with loop_invD(6) [OF li] a show ?thesis by (simp add: s1)
    qed
  qed
  moreover have "tj_ext node st st1"
    by (rule tj_extI) (simp_all add: st1_def)
  ultimately show ?thesis using ml by blast
qed

lemma parent_step:
  assumes li: "loop_inv g node (nb # rest) st" and nv: "indices st nb = None"
    and post: "sc_post g nb st st2"
  shows "\<exists>st3. min_low node (lowLinks st2 nb) st2 = Some st3 \<and> loop_inv g node rest st3
               \<and> tj_ext node st st3"
proof -
  note wf = loop_invD(1) [OF li]
  note d = tj_wfD [OF wf]
  note p = sc_postD [OF post]
  note wf2 = p(1)
  note d2 = tj_wfD [OF wf2]
  note e = tj_extD [OF p(2)]
  from loop_invD(3) [OF li] obtain new old where S: "stack st = new @ node # old"
    and N: "\<forall>y\<in>set new. (node, y) \<in> (edges g)\<^sup>* \<and> lw st node \<le> lw st y \<and> processed g st y []"
    by blast
  from e(3) obtain add where A: "stack st2 = add @ stack st"
    and Ad: "set add \<inter> dom (indices st) = {}" by blast
  from S have nS: "node \<in> set (stack st)" by simp
  with d(4) have nD: "node \<in> dom (indices st)" by blast
  from nv have nbn: "nb \<notin> dom (indices st)" by (simp add: domIff)
  with nD have neq: "node \<noteq> nb" by blast
  have idx_same: "\<And>v. v \<in> dom (indices st) \<Longrightarrow> indices st2 v = indices st v" by (rule e(1))
  have low_same: "\<And>v. v \<in> dom (indices st) \<Longrightarrow> lowLinks st2 v = lowLinks st v"
    using e(2) nbn by blast
  have dsub: "dom (indices st) \<subseteq> dom (indices st2)" using p(2) by (rule tj_ext_dom)
  from nD d(6) obtain a where a: "lowLinks st node = Some a" by blast
  with low_same [OF nD] have a2: "lowLinks st2 node = Some a" by simp
  from p(3) d2(6) obtain b where b: "lowLinks st2 nb = Some b" by blast
  define m where "m = min a b"
  define st3 where "st3 = st2\<lparr>lowLinks := (lowLinks st2)(node \<mapsto> m)\<rparr>"
  have ml: "min_low node (lowLinks st2 nb) st2 = Some st3"
    by (simp add: min_low_def a2 b st3_def m_def)
  from nS A have nS2: "node \<in> set (stack st2)" by simp
  have ma: "m \<le> lw st2 node" by (simp add: m_def a2)
  have wf3: "tj_wf g st3" unfolding st3_def using wf2 nS2 ma by (rule tj_wf_lower)
  have s3: "indices st3 = indices st2" "stack st3 = stack st2" "lw st3 node = m"
    "\<And>v. v \<noteq> node \<Longrightarrow> lw st3 v = lw st2 v"
    by (simp_all add: st3_def)
  from loop_invD(2) [OF li] have edge: "(node, nb) \<in> edges g" by (simp add: edge_iff)
  have inS: "\<And>w. w \<in> dom (indices st) \<Longrightarrow> w \<in> set (stack st2) \<Longrightarrow> w \<in> set (stack st)"
    using A Ad by auto
  have add_new: "\<And>y. y \<in> set add \<Longrightarrow> y \<noteq> node" using Ad nD by blast
  from S d(2) have new_ne: "\<And>y. y \<in> set new \<Longrightarrow> y \<noteq> node" by auto
  from S have new_S: "\<And>y. y \<in> set new \<Longrightarrow> y \<in> set (stack st)" by simp
  have ix_same: "\<And>v. v \<in> dom (indices st) \<Longrightarrow> ix st2 v = ix st v" using idx_same by simp
  have lw_same: "\<And>v. v \<in> dom (indices st) \<Longrightarrow> lw st2 v = lw st v" using low_same by simp
  have bl: "lw st2 nb = b" by (simp add: b)
  have al: "lw st node = a" by (simp add: a)
  have addprops: "\<forall>y\<in>set add. (nb, y) \<in> (edges g)\<^sup>* \<and> (y, nb) \<in> (edges g)\<^sup>*
                   \<and> b \<le> lw st2 y \<and> processed g st2 y []"
    and wit_b: "add \<noteq> [] \<longrightarrow> (\<exists>w\<in>set (stack st). ix st2 w = b \<and> (nb, w) \<in> (edges g)\<^sup>*)"
    and popped: "add = [] \<longrightarrow> a \<le> b"
  proof -
    from p(5) have "(\<forall>y\<in>set add. (nb, y) \<in> (edges g)\<^sup>* \<and> (y, nb) \<in> (edges g)\<^sup>*
                   \<and> b \<le> lw st2 y \<and> processed g st2 y [])
        \<and> (add \<noteq> [] \<longrightarrow> (\<exists>w\<in>set (stack st). ix st2 w = b \<and> (nb, w) \<in> (edges g)\<^sup>*))
        \<and> (add = [] \<longrightarrow> a \<le> b)"
    proof
      assume c: "stack st2 = stack st \<and> lw st2 nb = ix st2 nb"
      with A have ae: "add = []" by simp
      from c bl have "b = ix st2 nb" by simp
      with p(4) have "index st \<le> b" by simp
      moreover from d(1) [OF nD] have "ix st node < index st" .
      moreover from d(14) [OF nS] al have "a \<le> ix st node" by simp
      ultimately have "a \<le> b" by simp
      with ae show ?thesis by simp
    next
      assume "\<exists>add. stack st2 = add @ stack st \<and> nb \<in> set add
            \<and> (\<exists>w\<in>set (stack st). ix st2 w = lw st2 nb \<and> (nb, w) \<in> (edges g)\<^sup>*)
            \<and> (\<forall>y\<in>set add. (nb, y) \<in> (edges g)\<^sup>* \<and> (y, nb) \<in> (edges g)\<^sup>*
                   \<and> lw st2 nb \<le> lw st2 y \<and> processed g st2 y [])"
      then obtain add' where 1: "stack st2 = add' @ stack st" and 2: "nb \<in> set add'"
        and 3: "\<exists>w\<in>set (stack st). ix st2 w = lw st2 nb \<and> (nb, w) \<in> (edges g)\<^sup>*"
        and 4: "\<forall>y\<in>set add'. (nb, y) \<in> (edges g)\<^sup>* \<and> (y, nb) \<in> (edges g)\<^sup>*
                   \<and> lw st2 nb \<le> lw st2 y \<and> processed g st2 y []"
        by blast
      from 1 A have "add' = add" by simp
      with 2 3 4 bl show ?thesis by auto
    qed
    then show "\<forall>y\<in>set add. (nb, y) \<in> (edges g)\<^sup>* \<and> (y, nb) \<in> (edges g)\<^sup>*
                   \<and> b \<le> lw st2 y \<and> processed g st2 y []"
      and "add \<noteq> [] \<longrightarrow> (\<exists>w\<in>set (stack st). ix st2 w = b \<and> (nb, w) \<in> (edges g)\<^sup>*)"
      and "add = [] \<longrightarrow> a \<le> b" by blast+
  qed
  have "loop_inv g node rest st3"
  proof (rule loop_invI)
    show "tj_wf g st3" by (rule wf3)
    show "set rest \<subseteq> set (vNeighbors g node)" using loop_invD(2) [OF li] by simp
    have "\<forall>y\<in>set (add @ new). (node, y) \<in> (edges g)\<^sup>* \<and> lw st3 node \<le> lw st3 y \<and> processed g st3 y []"
    proof
      fix y assume "y \<in> set (add @ new)"
      then have "y \<in> set add \<or> y \<in> set new" by simp
      then show "(node, y) \<in> (edges g)\<^sup>* \<and> lw st3 node \<le> lw st3 y \<and> processed g st3 y []"
      proof
        assume y: "y \<in> set add"
        from addprops y have 1: "(nb, y) \<in> (edges g)\<^sup>*" and 2: "b \<le> lw st2 y"
          and 3: "processed g st2 y []" by blast+
        from edge 1 have "(node, y) \<in> (edges g)\<^sup>*" by (rule converse_rtrancl_into_rtrancl)
        moreover from 2 s3(3) s3(4) [OF add_new [OF y]] have "lw st3 node \<le> lw st3 y"
          by (simp add: m_def)
        moreover from 3 add_new [OF y] have "processed g st3 y []"
          unfolding st3_def by (rule processed_lower)
        ultimately show ?thesis by blast
      next
        assume y: "y \<in> set new"
        from N y have 1: "(node, y) \<in> (edges g)\<^sup>*" and 2: "lw st node \<le> lw st y"
          and 3: "processed g st y []" by blast+
        from new_S [OF y] d(4) have yD: "y \<in> dom (indices st)" by blast
        from 2 al lw_same [OF yD] s3(3) s3(4) [OF new_ne [OF y]] have "lw st3 node \<le> lw st3 y"
          by (simp add: m_def)
        moreover have "processed g st3 y []"
          unfolding processed_def
        proof (intro allI impI)
          fix w assume ed: "(y, w) \<in> edges g"
          have wn: "w \<notin> set []" by simp
          note q = processedD [OF 3 ed wn]
          from q(1) dsub have "w \<in> dom (indices st3)" by (auto simp: s3(1))
          moreover have "w \<in> set (stack st3) \<longrightarrow> lw st3 y \<le> ix st3 w"
          proof
            assume "w \<in> set (stack st3)"
            then have "w \<in> set (stack st)" using inS [OF q(1)] by (simp add: s3(2))
            from q(2) [OF this] lw_same [OF yD] ix_same [OF q(1)] s3(4) [OF new_ne [OF y]]
            show "lw st3 y \<le> ix st3 w" by (simp add: s3(1))
          qed
          ultimately show "w \<in> dom (indices st3) \<and> (w \<in> set (stack st3) \<longrightarrow> lw st3 y \<le> ix st3 w)"
            by blast
        qed
        ultimately show ?thesis using 1 by blast
      qed
    qed
    moreover from S A have "stack st3 = (add @ new) @ node # old" by (simp add: s3(2))
    ultimately show "\<exists>new old. stack st3 = new @ node # old
        \<and> (\<forall>y\<in>set new. (node, y) \<in> (edges g)\<^sup>* \<and> lw st3 node \<le> lw st3 y \<and> processed g st3 y [])"
      by blast
    show "\<forall>y\<in>set (stack st3). (y, node) \<in> (edges g)\<^sup>*"
    proof
      fix y assume "y \<in> set (stack st3)"
      then have "y \<in> set add \<or> y \<in> set (stack st)" using A by (simp add: s3(2))
      then show "(y, node) \<in> (edges g)\<^sup>*"
      proof
        assume y: "y \<in> set add"
        then have "add \<noteq> []" by auto
        with wit_b obtain w where w: "w \<in> set (stack st)" "(nb, w) \<in> (edges g)\<^sup>*" by blast
        from addprops y have "(y, nb) \<in> (edges g)\<^sup>*" by blast
        also note w(2)
        also from loop_invD(4) [OF li w(1)] have "(w, node) \<in> (edges g)\<^sup>*" .
        finally show ?thesis .
      next
        assume "y \<in> set (stack st)"
        then show ?thesis by (rule loop_invD(4) [OF li])
      qed
    qed
    show "processed g st3 node rest"
      unfolding processed_def
    proof (intro allI impI)
      fix w assume ed: "(node, w) \<in> edges g" and r: "w \<notin> set rest"
      show "w \<in> dom (indices st3) \<and> (w \<in> set (stack st3) \<longrightarrow> lw st3 node \<le> ix st3 w)"
      proof (cases "w = nb")
        case True
        have "nb \<in> set (stack st3) \<longrightarrow> lw st3 node \<le> ix st3 nb"
        proof
          assume "nb \<in> set (stack st3)"
          then have "nb \<in> set (stack st2)" by (simp add: s3(2))
          from d2(14) [OF this] bl have "b \<le> ix st2 nb" by simp
          then show "lw st3 node \<le> ix st3 nb" by (simp add: s3(1,3) m_def)
        qed
        with True p(3) show ?thesis by (simp add: s3(1))
      next
        case False
        with r have wn: "w \<notin> set (nb # rest)" by simp
        note q = processedD [OF loop_invD(5) [OF li] ed wn]
        from q(1) dsub have "w \<in> dom (indices st3)" by (auto simp: s3(1))
        moreover have "w \<in> set (stack st3) \<longrightarrow> lw st3 node \<le> ix st3 w"
        proof
          assume "w \<in> set (stack st3)"
          then have "w \<in> set (stack st)" using inS [OF q(1)] by (simp add: s3(2))
          from q(2) [OF this] al ix_same [OF q(1)]
          show "lw st3 node \<le> ix st3 w" by (simp add: s3(1,3) m_def)
        qed
        ultimately show ?thesis by blast
      qed
    qed
    show "\<exists>w\<in>set (stack st3). ix st3 w = lw st3 node \<and> (node, w) \<in> (edges g)\<^sup>*"
    proof (cases "b < a")
      case True
      then have mb: "m = b" by (simp add: m_def)
      from True popped have "add \<noteq> []" by auto
      with wit_b obtain w where w: "w \<in> set (stack st)" "ix st2 w = b" "(nb, w) \<in> (edges g)\<^sup>*"
        by blast
      from edge w(3) have "(node, w) \<in> (edges g)\<^sup>*" by (rule converse_rtrancl_into_rtrancl)
      moreover from w(1) A have "w \<in> set (stack st3)" by (simp add: s3(2))
      moreover from w(2) mb have "ix st3 w = lw st3 node" by (simp add: s3(1,3))
      ultimately show ?thesis by blast
    next
      case False
      then have mb: "m = a" by (simp add: m_def)
      from loop_invD(6) [OF li] obtain w where w: "w \<in> set (stack st)" "ix st w = lw st node"
        "(node, w) \<in> (edges g)\<^sup>*" by blast
      from w(1) d(4) have wD: "w \<in> dom (indices st)" by blast
      from w(1) A have "w \<in> set (stack st3)" by (simp add: s3(2))
      moreover from w(2) al mb ix_same [OF wD] have "ix st3 w = lw st3 node" by (simp add: s3(1,3))
      ultimately show ?thesis using w(3) by blast
    qed
  qed
  moreover have "tj_ext node st st3"
  proof (rule tj_extI)
    show "\<forall>v\<in>dom (indices st). indices st3 v = indices st v" using idx_same by (simp add: s3(1))
    show "\<forall>v\<in>dom (indices st). v \<noteq> node \<longrightarrow> lowLinks st3 v = lowLinks st v"
      using low_same by (simp add: st3_def)
    show "\<exists>new. stack st3 = new @ stack st \<and> set new \<inter> dom (indices st) = {}"
      using A Ad by (simp add: s3(2))
  qed
  ultimately show ?thesis using ml by blast
qed

lemma stack_split_unique:
  assumes "distinct (a @ x # b)" and "a @ x # b = a' @ x # b'"
  shows "a = a' \<and> b = b'"
proof -
  from assms(1) have "x \<notin> set a" "x \<notin> set b" by simp_all
  from append_Cons_eq_iff [OF this] assms(2) show ?thesis by blast
qed

lemma root_component:
  assumes li: "loop_inv g nb [] st" and S: "stack st = new @ nb # old"
    and root: "lw st nb = ix st nb"
  shows "set (new @ [nb]) = scc_of g nb"
proof -
  note wf = loop_invD(1) [OF li]
  note d = tj_wfD [OF wf]
  from loop_invD(3) [OF li] obtain new' old' where S': "stack st = new' @ nb # old'"
    and N': "\<forall>y\<in>set new'. (nb, y) \<in> (edges g)\<^sup>* \<and> lw st nb \<le> lw st y \<and> processed g st y []"
    by blast
  from d(2) S S' have "new = new' \<and> old = old'" by (intro stack_split_unique [of _ nb]) simp_all
  with N' have N: "\<forall>y\<in>set new. (nb, y) \<in> (edges g)\<^sup>* \<and> lw st nb \<le> lw st y \<and> processed g st y []"
    by simp
  have P: "\<And>y. y \<in> set (new @ [nb]) \<Longrightarrow>
             (nb, y) \<in> (edges g)\<^sup>* \<and> lw st nb \<le> lw st y \<and> processed g st y []"
    using N loop_invD(5) [OF li] by auto
  have PS: "\<And>y. y \<in> set (new @ [nb]) \<Longrightarrow> y \<in> set (stack st)" using S by auto
  from S d(5) have below: "\<And>z. z \<in> set old \<Longrightarrow> ix st z < ix st nb"
    by (simp add: sorted_wrt_append)
  have closed: "z \<in> set (new @ [nb])"
    if y: "y \<in> set (new @ [nb])" and e: "(y, z) \<in> edges g" and bk: "(z, nb) \<in> (edges g)\<^sup>*" for y z
  proof -
    from P [OF y] have 1: "(nb, y) \<in> (edges g)\<^sup>*" and 2: "lw st nb \<le> lw st y"
      and 3: "processed g st y []" by blast+
    have wn: "z \<notin> set []" by simp
    note q = processedD [OF 3 e wn]
    from q(1) d(11) have "z \<in> set (concat (sccs st)) \<or> z \<in> set (stack st)" by blast
    then show ?thesis
    proof
      assume "z \<in> set (concat (sccs st))"
      then obtain c where c: "c \<in> set (sccs st)" "z \<in> set c" by auto
      from d(8) [OF c] have sc: "set c = scc_of g z" .
      from 1 e have "(nb, z) \<in> (edges g)\<^sup>*" by (rule rtrancl_into_rtrancl)
      with bk have "nb \<in> scc_of g z" by (simp add: scc_of_def)
      with sc c(1) have "nb \<in> set (concat (sccs st))" by auto
      moreover from S have "nb \<in> set (stack st)" by simp
      ultimately show ?thesis using d(10) by blast
    next
      assume zs: "z \<in> set (stack st)"
      show ?thesis
      proof (rule ccontr)
        assume "z \<notin> set (new @ [nb])"
        with zs S have "z \<in> set old" by auto
        from below [OF this] have "ix st z < ix st nb" .
        moreover from q(2) [OF zs] 2 have "lw st nb \<le> ix st z" by simp
        ultimately show False using root by simp
      qed
    qed
  qed
  have max: "(z, nb) \<in> (edges g)\<^sup>* \<longrightarrow> z \<in> set (new @ [nb])" if "(nb, z) \<in> (edges g)\<^sup>*" for z
    using that
  proof (induction rule: rtrancl_induct)
    case base
    then show ?case by simp
  next
    case (step y z)
    show ?case
    proof
      assume bk: "(z, nb) \<in> (edges g)\<^sup>*"
      with step.hyps(2) have "(y, nb) \<in> (edges g)\<^sup>*" by (rule converse_rtrancl_into_rtrancl)
      with step.IH have "y \<in> set (new @ [nb])" by blast
      from closed [OF this step.hyps(2) bk] show "z \<in> set (new @ [nb])" .
    qed
  qed
  show ?thesis
  proof
    show "set (new @ [nb]) \<subseteq> scc_of g nb"
    proof
      fix y assume y: "y \<in> set (new @ [nb])"
      from P [OF y] have "(nb, y) \<in> (edges g)\<^sup>*" by blast
      moreover from loop_invD(4) [OF li PS [OF y]] have "(y, nb) \<in> (edges g)\<^sup>*" .
      ultimately show "y \<in> scc_of g nb" by (simp add: scc_of_def)
    qed
    show "scc_of g nb \<subseteq> set (new @ [nb])"
    proof
      fix z assume "z \<in> scc_of g nb"
      then have "(nb, z) \<in> (edges g)\<^sup>*" "(z, nb) \<in> (edges g)\<^sup>*" by (simp_all add: scc_of_def)
      with max show "z \<in> set (new @ [nb])" by blast
    qed
  qed
qed

lemma pop_wf:
  assumes li: "loop_inv g nb [] st" and S: "stack st = new @ nb # old"
    and root: "lw st nb = ix st nb"
  shows "tj_wf g (st\<lparr>stack := old, onStack := onStack st - set (new @ [nb]),
                     sccs := sccs st @ [new @ [nb]]\<rparr>)"
proof (rule tj_wfI)
  note wf = loop_invD(1) [OF li]
  note d = tj_wfD [OF wf]
  let ?st = "st\<lparr>stack := old, onStack := onStack st - set (new @ [nb]), sccs := sccs st @ [new @ [nb]]\<rparr>"
  note comp = root_component [OF li S root]
  from S d(2) have dis: "distinct new" "distinct old" "nb \<notin> set new" "nb \<notin> set old"
    "set new \<inter> set old = {}" by auto
  from S have sub: "set old \<subseteq> set (stack st)" "set (new @ [nb]) \<subseteq> set (stack st)" by auto
  from loop_invD(3) [OF li] obtain new' old' where S': "stack st = new' @ nb # old'"
    and N': "\<forall>y\<in>set new'. (nb, y) \<in> (edges g)\<^sup>* \<and> lw st nb \<le> lw st y \<and> processed g st y []"
    by blast
  from d(2) S S' have "new = new' \<and> old = old'" by (intro stack_split_unique [of _ nb]) simp_all
  with N' have N: "\<forall>y\<in>set new. processed g st y []" by simp
  show "\<forall>v\<in>dom (indices ?st). ix ?st v < index ?st" using d(1) by simp
  show "distinct (stack ?st)" using dis by simp
  show "onStack ?st = set (stack ?st)" using d(3) S dis by auto
  show "set (stack ?st) \<subseteq> dom (indices ?st)" using d(4) sub by auto
  show "sorted_wrt (\<lambda>x y. ix ?st y < ix ?st x) (stack ?st)"
    using d(5) S by (simp add: sorted_wrt_append)
  show "dom (lowLinks ?st) = dom (indices ?st)" using d(6) by simp
  show "\<forall>c\<in>set (sccs ?st). c \<noteq> [] \<and> (\<forall>v\<in>set c. set c = scc_of g v)"
  proof
    fix c assume "c \<in> set (sccs ?st)"
    then have "c \<in> set (sccs st) \<or> c = new @ [nb]" by auto
    then show "c \<noteq> [] \<and> (\<forall>v\<in>set c. set c = scc_of g v)"
    proof
      assume c: "c \<in> set (sccs st)"
      from d(7) [OF c] d(8) [OF c] show ?thesis by blast
    next
      assume c: "c = new @ [nb]"
      have "\<forall>v\<in>set c. set c = scc_of g v"
      proof
        fix v assume "v \<in> set c"
        with c comp have "v \<in> scc_of g nb" by simp
        then have "scc_of g v = scc_of g nb" by (rule scc_of_eq)
        with c comp show "set c = scc_of g v" by simp
      qed
      moreover from c have "c \<noteq> []" by simp
      ultimately show ?thesis by (intro conjI)
    qed
  qed
  from d(10) sub have disj: "set (concat (sccs st)) \<inter> set (new @ [nb]) = {}"
    "set (concat (sccs st)) \<inter> set old = {}" by blast+
  show "distinct (concat (sccs ?st))" using d(9) dis disj(1) by simp
  show "set (concat (sccs ?st)) \<inter> set (stack ?st) = {}" using disj(2) dis by auto
  show "dom (indices ?st) = set (concat (sccs ?st)) \<union> set (stack ?st)"
    using d(11) S by auto
  show "dom (indices ?st) \<subseteq> vertices g" using d(12) by simp
  show "\<forall>v\<in>set (concat (sccs ?st)). \<forall>w. (v, w) \<in> edges g \<longrightarrow> w \<in> dom (indices ?st)"
  proof (intro ballI allI impI)
    fix v w assume v: "v \<in> set (concat (sccs ?st))" and e: "(v, w) \<in> edges g"
    from v have "v \<in> set (concat (sccs st)) \<or> v \<in> set new \<or> v = nb" by auto
    then have "w \<in> dom (indices st)"
    proof (elim disjE)
      assume "v \<in> set (concat (sccs st))"
      from d(13) [OF this e] show ?thesis .
    next
      assume "v \<in> set new"
      with N have "processed g st v []" by blast
      from processedD(1) [OF this e] show ?thesis by simp
    next
      assume "v = nb"
      with loop_invD(5) [OF li] have "processed g st v []" by simp
      from processedD(1) [OF this e] show ?thesis by simp
    qed
    then show "w \<in> dom (indices ?st)" by simp
  qed
  show "\<forall>v\<in>set (stack ?st). lw ?st v \<le> ix ?st v" using d(14) sub by auto
qed

lemma call_spec:
  assumes wf: "tj_wf g st" and nv: "indices st nb = None"
    and li1: "loop_inv g nb [] st1" and ext1: "tj_ext nb (sc_enter nb st) st1"
  shows "\<exists>st2. sc_finish nb st1 = Some st2 \<and> sc_post g nb st st2"
proof -
  note d = tj_wfD [OF wf]
  note wf1 = loop_invD(1) [OF li1]
  note d1 = tj_wfD [OF wf1]
  note e = tj_extD [OF ext1]
  from nv have nbn: "nb \<notin> dom (indices st)" by (simp add: domIff)
  from e(3) obtain new where S1: "stack st1 = new @ nb # stack st"
    and nd: "set new \<inter> insert nb (dom (indices st)) = {}"
    by (auto simp: sc_enter_simps)
  from nd have nbnew: "nb \<notin> set new" by blast
  have i_nb: "indices st1 nb = Some (index st)"
    using e(1) [of nb] by (simp add: sc_enter_simps)
  have i_old: "\<And>v. v \<in> dom (indices st) \<Longrightarrow> indices st1 v = indices st v"
  proof -
    fix v assume v: "v \<in> dom (indices st)"
    with nbn have "v \<noteq> nb" by blast
    with e(1) [of v] v show "indices st1 v = indices st v" by (simp add: sc_enter_simps)
  qed
  have l_old: "\<And>v. v \<in> dom (indices st) \<Longrightarrow> lowLinks st1 v = lowLinks st v"
  proof -
    fix v assume v: "v \<in> dom (indices st)"
    with nbn have "v \<noteq> nb" by blast
    with e(2) [of v] v show "lowLinks st1 v = lowLinks st v" by (simp add: sc_enter_simps)
  qed
  have nbd: "nb \<in> dom (indices st1)" using i_nb by blast
  with d1(6) obtain lo where lo: "lowLinks st1 nb = Some lo" by blast
  from S1 have nbS: "nb \<in> set (stack st1)" by simp
  from d1(14) [OF nbS] lo i_nb have lole: "lo \<le> index st" by simp
  from loop_invD(3) [OF li1] obtain new' old' where S': "stack st1 = new' @ nb # old'"
    and N': "\<forall>y\<in>set new'. (nb, y) \<in> (edges g)\<^sup>* \<and> lw st1 nb \<le> lw st1 y \<and> processed g st1 y []"
    by blast
  from d1(2) S1 S' have "new = new' \<and> stack st = old'"
    by (intro stack_split_unique [of _ nb]) simp_all
  with N' have N: "\<forall>y\<in>set new. (nb, y) \<in> (edges g)\<^sup>* \<and> lw st1 nb \<le> lw st1 y \<and> processed g st1 y []"
    by simp
  show ?thesis
  proof (cases "lo = index st")
    case True
    define st2 where "st2 = st1\<lparr>stack := stack st, onStack := onStack st1 - set (new @ [nb]),
                               sccs := sccs st1 @ [new @ [nb]]\<rparr>"
    from pop_scc_split [OF nbnew, of "stack st" "onStack st1" "[]"] S1
    have "pop_scc nb (stack st1) (onStack st1) [] = Some (stack st, onStack st1 - set (new @ [nb]), new @ [nb])"
      by simp
    with True lo i_nb have fin: "sc_finish nb st1 = Some st2"
      by (simp add: sc_finish_def st2_def)
    from True lo i_nb have root: "lw st1 nb = ix st1 nb" by simp
    have wf2: "tj_wf g st2" unfolding st2_def using li1 S1 root by (rule pop_wf)
    have s2: "indices st2 = indices st1" "lowLinks st2 = lowLinks st1" "stack st2 = stack st"
      by (simp_all add: st2_def)
    have "sc_post g nb st st2"
    proof (rule sc_postI)
      show "tj_wf g st2" by (rule wf2)
      show "tj_ext nb st st2"
      proof (rule tj_extI)
        show "\<forall>v\<in>dom (indices st). indices st2 v = indices st v" using i_old by (simp add: s2)
        show "\<forall>v\<in>dom (indices st). v \<noteq> nb \<longrightarrow> lowLinks st2 v = lowLinks st v"
          using l_old by (simp add: s2)
        show "\<exists>new. stack st2 = new @ stack st \<and> set new \<inter> dom (indices st) = {}"
          by (simp add: s2)
      qed
      show "nb \<in> dom (indices st2)" using nbd by (simp add: s2)
      show "index st \<le> ix st2 nb" using i_nb by (simp add: s2)
      from root have "stack st2 = stack st \<and> lw st2 nb = ix st2 nb" by (simp add: s2)
      then show "(stack st2 = stack st \<and> lw st2 nb = ix st2 nb)
        \<or> (\<exists>add. stack st2 = add @ stack st \<and> nb \<in> set add
            \<and> (\<exists>w\<in>set (stack st). ix st2 w = lw st2 nb \<and> (nb, w) \<in> (edges g)\<^sup>*)
            \<and> (\<forall>y\<in>set add. (nb, y) \<in> (edges g)\<^sup>* \<and> (y, nb) \<in> (edges g)\<^sup>*
                   \<and> lw st2 nb \<le> lw st2 y \<and> processed g st2 y []))" by (rule disjI1)
    qed
    with fin show ?thesis by blast
  next
    case False
    with lo i_nb have fin: "sc_finish nb st1 = Some st1" by (simp add: sc_finish_def)
    from False lole have lolt: "lo < index st" by simp
    have "sc_post g nb st st1"
    proof (rule sc_postI)
      show "tj_wf g st1" by (rule wf1)
      show "tj_ext nb st st1"
      proof (rule tj_extI)
        show "\<forall>v\<in>dom (indices st). indices st1 v = indices st v" using i_old by simp
        show "\<forall>v\<in>dom (indices st). v \<noteq> nb \<longrightarrow> lowLinks st1 v = lowLinks st v"
          using l_old by simp
        from S1 nd nbn have "stack st1 = (new @ [nb]) @ stack st \<and> set (new @ [nb]) \<inter> dom (indices st) = {}"
          by auto
        then show "\<exists>new. stack st1 = new @ stack st \<and> set new \<inter> dom (indices st) = {}" by blast
      qed
      show "nb \<in> dom (indices st1)" by (rule nbd)
      show "index st \<le> ix st1 nb" using i_nb by simp
      have wit: "\<exists>w\<in>set (stack st). ix st1 w = lw st1 nb \<and> (nb, w) \<in> (edges g)\<^sup>*"
      proof -
        from loop_invD(6) [OF li1] obtain w where w: "w \<in> set (stack st1)" "ix st1 w = lw st1 nb"
          "(nb, w) \<in> (edges g)\<^sup>*" by blast
        from w(2) lo have iw: "ix st1 w = lo" by simp
        have "w \<in> set (stack st)"
        proof (rule ccontr)
          assume "w \<notin> set (stack st)"
          with w(1) S1 have "w \<in> set new \<or> w = nb" by auto
          then show False
          proof
            assume "w \<in> set new"
            with d1(5) S1 have "ix st1 nb < ix st1 w" by (simp add: sorted_wrt_append)
            with iw i_nb lolt show False by simp
          next
            assume "w = nb"
            with iw i_nb False show False by simp
          qed
        qed
        with w show ?thesis by blast
      qed
      have all: "\<forall>y\<in>set (new @ [nb]). (nb, y) \<in> (edges g)\<^sup>* \<and> (y, nb) \<in> (edges g)\<^sup>*
                   \<and> lw st1 nb \<le> lw st1 y \<and> processed g st1 y []"
      proof
        fix y assume y: "y \<in> set (new @ [nb])"
        with S1 have "y \<in> set (stack st1)" by auto
        from loop_invD(4) [OF li1 this] have r: "(y, nb) \<in> (edges g)\<^sup>*" .
        from y have "y \<in> set new \<or> y = nb" by auto
        then show "(nb, y) \<in> (edges g)\<^sup>* \<and> (y, nb) \<in> (edges g)\<^sup>*
                   \<and> lw st1 nb \<le> lw st1 y \<and> processed g st1 y []"
        proof
          assume "y \<in> set new"
          with N r show ?thesis by blast
        next
          assume "y = nb"
          with loop_invD(5) [OF li1] r show ?thesis by simp
        qed
      qed
      from S1 have "stack st1 = (new @ [nb]) @ stack st \<and> nb \<in> set (new @ [nb])" by simp
      with wit all have "\<exists>add. stack st1 = add @ stack st \<and> nb \<in> set add
            \<and> (\<exists>w\<in>set (stack st). ix st1 w = lw st1 nb \<and> (nb, w) \<in> (edges g)\<^sup>*)
            \<and> (\<forall>y\<in>set add. (nb, y) \<in> (edges g)\<^sup>* \<and> (y, nb) \<in> (edges g)\<^sup>*
                   \<and> lw st1 nb \<le> lw st1 y \<and> processed g st1 y [])" by blast
      then show "(stack st1 = stack st \<and> lw st1 nb = ix st1 nb)
        \<or> (\<exists>add. stack st1 = add @ stack st \<and> nb \<in> set add
            \<and> (\<exists>w\<in>set (stack st). ix st1 w = lw st1 nb \<and> (nb, w) \<in> (edges g)\<^sup>*)
            \<and> (\<forall>y\<in>set add. (nb, y) \<in> (edges g)\<^sup>* \<and> (y, nb) \<in> (edges g)\<^sup>*
                   \<and> lw st1 nb \<le> lw st1 y \<and> processed g st1 y []))" by (rule disjI2)
    qed
    with fin show ?thesis by blast
  qed
qed

lemma sc_loop_spec:
  "loop_inv g node nbs st \<Longrightarrow>
   \<exists>st'. sc_loop g node nbs st = Some st' \<and> loop_inv g node [] st' \<and> tj_ext node st st'"
proof (induction g node nbs st rule: sc_loop.induct)
  case (1 g node st)
  then show ?case by (simp add: tj_ext_refl)
next
  case (2 g node nb rest st)
  note li = "2.prems"
  note wf = loop_invD(1) [OF li]
  from loop_invD(2) [OF li] have edge: "(node, nb) \<in> edges g" by (simp add: edge_iff)
  show ?case
  proof (cases "indices st nb = None")
    case True
    from edge have vx: "nb \<in> vertices g" by (auto simp: vertices_def)
    have reach: "\<And>y. y \<in> set (stack st) \<Longrightarrow> (y, nb) \<in> (edges g)\<^sup>*"
      using loop_invD(4) [OF li] edge by (blast intro: rtrancl_into_rtrancl)
    from wf True vx reach have li0: "loop_inv g nb (vNeighbors g nb) (sc_enter nb st)"
      by (rule enter_inv)
    from "2.IH"(1) [OF True li0] obtain st1 where
      c1: "sc_loop g nb (vNeighbors g nb) (sc_enter nb st) = Some st1"
      and li1: "loop_inv g nb [] st1" and ext1: "tj_ext nb (sc_enter nb st) st1" by blast
    from call_spec [OF wf True li1 ext1] obtain st2 where
      fin: "sc_finish nb st1 = Some st2" and post: "sc_post g nb st st2" by blast
    from parent_step [OF li True post] obtain st3 where
      ml: "min_low node (lowLinks st2 nb) st2 = Some st3"
      and li3: "loop_inv g node rest st3" and ext3: "tj_ext node st st3" by blast
    from "2.IH"(2) [OF True c1 fin ml li3] obtain st' where
      c2: "sc_loop g node rest st3 = Some st'"
      and li': "loop_inv g node [] st'" and ext': "tj_ext node st3 st'" by blast
    from True c1 fin ml c2 have "sc_loop g node (nb # rest) st = Some st'" by simp
    moreover from ext3 ext' have "tj_ext node st st'" by (rule tj_ext_trans)
    ultimately show ?thesis using li' by blast
  next
    case False
    note vis = this
    show ?thesis
    proof (cases "nb \<in> onStack st")
      case True
      from onstack_step [OF li vis True] obtain st1 where
        ml: "min_low node (indices st nb) st = Some st1"
        and li1: "loop_inv g node rest st1" and ext1: "tj_ext node st st1" by blast
      from "2.IH"(3) [OF vis True ml li1] obtain st' where
        c2: "sc_loop g node rest st1 = Some st'"
        and li': "loop_inv g node [] st'" and ext': "tj_ext node st1 st'" by blast
      from vis True ml c2 have "sc_loop g node (nb # rest) st = Some st'" by auto
      moreover from ext1 ext' have "tj_ext node st st'" by (rule tj_ext_trans)
      ultimately show ?thesis using li' by blast
    next
      case False
      from skip_step [OF li vis False] have li1: "loop_inv g node rest st" .
      from "2.IH"(4) [OF vis False li1] obtain st' where
        c2: "sc_loop g node rest st = Some st'"
        and li': "loop_inv g node [] st'" and ext': "tj_ext node st st'" by blast
      from vis False c2 have "sc_loop g node (nb # rest) st = Some st'" by auto
      with li' ext' show ?thesis by blast
    qed
  qed
qed

lemma strongConnect_spec:
  assumes wf: "tj_wf g st" and nv: "indices st nb = None" and vx: "nb \<in> vertices g"
    and reach: "\<And>y. y \<in> set (stack st) \<Longrightarrow> (y, nb) \<in> (edges g)\<^sup>*"
  shows "\<exists>st2. strongConnect g nb st = Some st2 \<and> sc_post g nb st st2"
proof -
  from wf nv vx reach have "loop_inv g nb (vNeighbors g nb) (sc_enter nb st)" by (rule enter_inv)
  from sc_loop_spec [OF this] obtain st1 where
    c1: "sc_loop g nb (vNeighbors g nb) (sc_enter nb st) = Some st1"
    and li1: "loop_inv g nb [] st1" and ext1: "tj_ext nb (sc_enter nb st) st1" by blast
  from call_spec [OF wf nv li1 ext1] obtain st2 where
    fin: "sc_finish nb st1 = Some st2" and post: "sc_post g nb st st2" by blast
  from c1 fin have "strongConnect g nb st = Some st2" by (simp add: strongConnect_def)
  with post show ?thesis by blast
qed

lemma tarjan_outer_spec:
  assumes "tj_wf g st" and "stack st = []" and "set nodes \<subseteq> vertices g"
  shows "\<exists>st'. tarjan_outer g nodes st = Some st' \<and> tj_wf g st' \<and> stack st' = []
               \<and> set nodes \<union> dom (indices st) \<subseteq> dom (indices st')"
  using assms
proof (induction nodes arbitrary: st)
  case Nil
  then show ?case by simp
next
  case (Cons node rest)
  show ?case
  proof (cases "indices st node = None")
    case True
    from Cons.prems(3) have vx: "node \<in> vertices g" by simp
    have reach: "\<And>y. y \<in> set (stack st) \<Longrightarrow> (y, node) \<in> (edges g)\<^sup>*"
      using Cons.prems(2) by simp
    from strongConnect_spec [OF Cons.prems(1) True vx reach] obtain st1 where
      c: "strongConnect g node st = Some st1" and post: "sc_post g node st st1" by blast
    note p = sc_postD [OF post]
    from p(5) Cons.prems(2) have e: "stack st1 = []" by auto
    from Cons.prems(3) have "set rest \<subseteq> vertices g" by simp
    from Cons.IH [OF p(1) e this] obtain st' where
      o: "tarjan_outer g rest st1 = Some st'" and wf': "tj_wf g st'" and e': "stack st' = []"
      and sub: "set rest \<union> dom (indices st1) \<subseteq> dom (indices st')" by blast
    from True c o have "tarjan_outer g (node # rest) st = Some st'" by simp
    moreover have "set (node # rest) \<union> dom (indices st) \<subseteq> dom (indices st')"
    proof -
      from sub p(3) have "node \<in> dom (indices st')" by blast
      moreover from sub have "set rest \<subseteq> dom (indices st')" by blast
      moreover from sub tj_ext_dom [OF p(2)] have "dom (indices st) \<subseteq> dom (indices st')" by blast
      ultimately show ?thesis by simp
    qed
    ultimately show ?thesis using wf' e' by blast
  next
    case False
    from Cons.prems(3) have "set rest \<subseteq> vertices g" by simp
    from Cons.IH [OF Cons.prems(1,2) this] obtain st' where
      o: "tarjan_outer g rest st = Some st'" and wf': "tj_wf g st'" and e': "stack st' = []"
      and sub: "set rest \<union> dom (indices st) \<subseteq> dom (indices st')" by blast
    from False o have "tarjan_outer g (node # rest) st = Some st'" by auto
    moreover have "set (node # rest) \<union> dom (indices st) \<subseteq> dom (indices st')"
    proof -
      from False have "node \<in> dom (indices st)" by (simp add: domIff)
      with sub have "node \<in> dom (indices st')" by blast
      moreover from sub have "set rest \<subseteq> dom (indices st')" by blast
      moreover from sub have "dom (indices st) \<subseteq> dom (indices st')" by blast
      ultimately show ?thesis by simp
    qed
    ultimately show ?thesis using wf' e' by blast
  qed
qed

lemma tj_wf_init: "tj_wf g tarjan_init"
  by (rule tj_wfI) (simp_all add: tarjan_init_def)

lemma tarjan_final:
  "\<exists>st. tarjan_outer g (vNodes g) tarjan_init = Some st
      \<and> set ` set (sccs st) = scc_of g ` vertices g
      \<and> distinct (concat (sccs st))
      \<and> set (concat (sccs st)) = vertices g"
proof -
  have "set (vNodes g) \<subseteq> vertices g" by (simp add: vertices_def)
  from tarjan_outer_spec [OF tj_wf_init _ this] obtain st where
    o: "tarjan_outer g (vNodes g) tarjan_init = Some st" and wf: "tj_wf g st"
    and e: "stack st = []" and sub: "set (vNodes g) \<subseteq> dom (indices st)"
    by (auto simp: tarjan_init_def)
  note d = tj_wfD [OF wf]
  from d(11) e have dc: "dom (indices st) = set (concat (sccs st))" by simp
  have "Range (edges g) \<subseteq> dom (indices st)"
  proof
    fix w assume "w \<in> Range (edges g)"
    then obtain u where uw: "(u, w) \<in> edges g" by blast
    from edge_source_is_node [OF uw] sub dc have "u \<in> set (concat (sccs st))" by blast
    from d(13) [OF this uw] show "w \<in> dom (indices st)" .
  qed
  with sub d(12) have verts: "dom (indices st) = vertices g" by (auto simp: vertices_def)
  with dc have cv: "set (concat (sccs st)) = vertices g" by simp
  have "set ` set (sccs st) = scc_of g ` vertices g"
  proof
    show "set ` set (sccs st) \<subseteq> scc_of g ` vertices g"
    proof
      fix X assume "X \<in> set ` set (sccs st)"
      then obtain c where c: "c \<in> set (sccs st)" "X = set c" by blast
      from d(7) [OF c(1)] obtain v where v: "v \<in> set c" by (cases c) auto
      from d(8) [OF c(1) v] c(2) have "X = scc_of g v" by simp
      moreover from v c(1) cv have "v \<in> vertices g" by auto
      ultimately show "X \<in> scc_of g ` vertices g" by blast
    qed
    show "scc_of g ` vertices g \<subseteq> set ` set (sccs st)"
    proof
      fix X assume "X \<in> scc_of g ` vertices g"
      then obtain v where v: "v \<in> vertices g" "X = scc_of g v" by blast
      from v(1) cv obtain c where c: "c \<in> set (sccs st)" "v \<in> set c" by auto
      from d(8) [OF c] v(2) have "X = set c" by simp
      with c(1) show "X \<in> set ` set (sccs st)" by blast
    qed
  qed
  with o d(9) cv show ?thesis by blast
qed

lemma deadlock_sets:
  assumes "distinct (concat C)"
  shows "set ` set (filter (\<lambda>scc. 1 < length scc) C) = {X \<in> set ` set C. 1 < card X}"
proof -
  have len: "\<And>c. c \<in> set C \<Longrightarrow> card (set c) = length c"
    using assms by (simp add: distinct_concat_iff distinct_card)
  show ?thesis
  proof
    show "set ` set (filter (\<lambda>scc. 1 < length scc) C) \<subseteq> {X \<in> set ` set C. 1 < card X}"
      using len by auto
    show "{X \<in> set ` set C. 1 < card X} \<subseteq> set ` set (filter (\<lambda>scc. 1 < length scc) C)"
    proof
      fix X assume "X \<in> {X \<in> set ` set C. 1 < card X}"
      then obtain c where c: "c \<in> set C" "X = set c" "1 < card X" by blast
      with len [OF c(1)] have "c \<in> set (filter (\<lambda>scc. 1 < length scc) C)" by simp
      with c(2) show "X \<in> set ` set (filter (\<lambda>scc. 1 < length scc) C)" by blast
    qed
  qed
qed

text \<open>
  Claim C5 (correctness of Tarjan's algorithm).  For every graph, \<open>detectDeadlockTarjan\<close>
  returns.  The sets of nodes of the lists in \<open>sccs\<close> are exactly the strongly connected
  components of the graph; no node occurs twice in \<open>sccs\<close> and every node of the graph occurs,
  so each node lies in exactly one of the lists.  \<open>deadlocks\<close> keeps the lists of \<open>sccs\<close> with
  more than one element, in their order: they are exactly the strongly connected components
  with more than one node.
\<close>

theorem tarjan_sccs_correct:
  "\<exists>r. detectDeadlockTarjan g = Some r
       \<and> set ` set (tr_sccs r) = scc_of g ` vertices g
       \<and> distinct (concat (tr_sccs r))
       \<and> set (concat (tr_sccs r)) = vertices g
       \<and> deadlocks r = filter (\<lambda>scc. 1 < length scc) (tr_sccs r)
       \<and> set ` set (deadlocks r) = {c \<in> scc_of g ` vertices g. 1 < card c}"
proof -
  from tarjan_final [of g] obtain st where
    o: "tarjan_outer g (vNodes g) tarjan_init = Some st"
    and a: "set ` set (sccs st) = scc_of g ` vertices g"
    and b: "distinct (concat (sccs st))"
    and c: "set (concat (sccs st)) = vertices g" by blast
  define r where "r = \<lparr>tr_sccs = sccs st, deadlocks = filter (\<lambda>scc. 1 < length scc) (sccs st),
                        hasDeadlock = (0 < length (filter (\<lambda>scc. 1 < length scc) (sccs st)))\<rparr>"
  from o have 1: "detectDeadlockTarjan g = Some r"
    by (simp add: detectDeadlockTarjan_def r_def Let_def)
  have 2: "tr_sccs r = sccs st" "deadlocks r = filter (\<lambda>scc. 1 < length scc) (sccs st)"
    by (simp_all add: r_def)
  from deadlock_sets [OF b] a
  have 3: "set ` set (deadlocks r) = {c \<in> scc_of g ` vertices g. 1 < card c}"
    by (simp add: 2)
  from 1 2 3 a b c show ?thesis by auto
qed

text \<open>
  The scenario T1 \<rightarrow> T2 \<rightarrow> T3 \<rightarrow> T1: one component with the three transactions.
\<close>

lemma tarjan_triangle:
  "detectDeadlockTarjan triangle_graph
   = Some \<lparr>tr_sccs = [[''T3'', ''T2'', ''T1'']], deadlocks = [[''T3'', ''T2'', ''T1'']],
           hasDeadlock = True\<rparr>"
  by code_simp

end
